theory Spec2Isabelle
  imports Complex_Main "HOL-Library.Word"
begin

unbundle bit_operations_syntax

section \<open>The Valence protocol engine of ValenceRTDisplay\_V2.ino\<close>

text \<open>
  A shallow embedding of the protocol engine of \<^verbatim>\<open>ValenceRTDisplay_V2.ino\<close>:
  the MODBUS CRC, the frame decoder, the identifier parser, the synthetic data
  generator, the discovery pass and the polling pass.

  Conventions of the model.
  \<^item> \<^verbatim>\<open>byte\<close> is an 8-bit word, \<^verbatim>\<open>uint16_t\<close> a 16-bit word, \<^verbatim>\<open>unsigned long\<close>
    (what \<^verbatim>\<open>millis()\<close> returns on the ESP32) a 32-bit word; \<^verbatim>\<open>int\<close> values that
    never leave a small range are \<open>int\<close>.
  \<^item> The \<^verbatim>\<open>float\<close> fields of a reading are modelled by the real numbers they stand
    for: the rounding of the floating-point arithmetic is outside the model.
  \<^item> A fixed-size C array is a function from the index to the element; every
    access of the model is guarded as the source guards it, and a write the source
    would perform below the array (a negative index) is the result \<open>None\<close>.
  \<^item> The debug output on \<^verbatim>\<open>Serial\<close>, the display and the RS485 direction pin are
    not modelled.
\<close>

subsection \<open>Data model\<close>

type_synonym byte = "8 word"

definition MAX_BATTERIES :: int where
  "MAX_BATTERIES = 4"

definition RESPONSE_TIMEOUT :: "32 word" where
  "RESPONSE_TIMEOUT = 1000"

record BatteryData =
  voltage :: real
  current :: real
  power_w :: real
  soc :: int
  temperature :: real
  cellVoltages :: "nat \<Rightarrow> real"
  current2 :: real
  cycles :: "16 word"
  valid :: bool
  lastUpdate :: "32 word"
  batteryID :: string

text \<open>The global variables of the sketch that the engine reads and writes.\<close>

record engine =
  batteries :: "nat \<Rightarrow> BatteryData"
  activeBatteryCount :: int
  protocolInitialized :: bool
  batteryIDsAssigned :: "nat \<Rightarrow> bool"
  discoveredBatteryIDs :: "nat \<Rightarrow> string"

subsection \<open>The world outside the engine\<close>

text \<open>
  The clock counts milliseconds since boot and advances only in \<^verbatim>\<open>delay\<close>; the
  receive side of \<^verbatim>\<open>Serial2\<close> is the queue of the bytes still to be read, each with
  the time at which it arrives, in the order of the wire (a byte is available once it and
  all bytes before it have arrived); the transmit side is the list of the frames written
  so far. \<^verbatim>\<open>random(lo, hi)\<close> is a library function: the world carries the value
  each of its calls returns. The theorems hold for every such world.
\<close>

record world =
  clock :: nat
  rxq :: "(nat \<times> byte) list"
  tx :: "byte list list"
  rand_calls :: nat
  rand_result :: "nat \<Rightarrow> int \<Rightarrow> int \<Rightarrow> int"

definition millis :: "world \<Rightarrow> 32 word" where
  "millis w = word_of_nat (clock w)"

definition delay :: "nat \<Rightarrow> world \<Rightarrow> world" where
  "delay ms w = w\<lparr>clock := clock w + ms\<rparr>"

definition Serial2_write :: "byte list \<Rightarrow> world \<Rightarrow> world" where
  "Serial2_write frame w = w\<lparr>tx := tx w @ [frame]\<rparr>"

definition Serial2_available :: "world \<Rightarrow> int" where
  "Serial2_available w = int (length (takeWhile (\<lambda>(t, b). t \<le> clock w) (rxq w)))"

text \<open>\<^verbatim>\<open>Serial2.read()\<close> returns -1 on an empty buffer; the engine only reads after
  \<^verbatim>\<open>available()\<close>, and the model returns \<open>None\<close> otherwise.\<close>

definition Serial2_read :: "world \<Rightarrow> (byte \<times> world) option" where
  "Serial2_read w =
     (case rxq w of
        [] \<Rightarrow> None
      | (t, b) # rest \<Rightarrow> if t \<le> clock w then Some (b, w\<lparr>rxq := rest\<rparr>) else None)"

definition random :: "int \<Rightarrow> int \<Rightarrow> world \<Rightarrow> int \<times> world" where
  "random lo hi w = (rand_result w (rand_calls w) lo hi, w\<lparr>rand_calls := Suc (rand_calls w)\<rparr>)"

subsection \<open>calculateModbusCRC\<close>

text \<open>The inner loop \<^verbatim>\<open>for (j = 0; j < 8; j++)\<close>, by the number of rounds left.\<close>

primrec crcBits :: "nat \<Rightarrow> 16 word \<Rightarrow> 16 word" where
  "crcBits 0 crc = crc"
| "crcBits (Suc n) crc =
     crcBits n (if crc AND 1 \<noteq> 0 then drop_bit 1 crc XOR 0xA001 else drop_bit 1 crc)"

text \<open>The outer loop over the bytes \<^verbatim>\<open>data[0 .. length-1]\<close>.\<close>

primrec crcLoop :: "byte list \<Rightarrow> 16 word \<Rightarrow> 16 word" where
  "crcLoop [] crc = crc"
| "crcLoop (b # bs) crc = crcLoop bs (crcBits 8 (crc XOR ucast b))"

definition calculateModbusCRC :: "byte list \<Rightarrow> nat \<Rightarrow> 16 word" where
  "calculateModbusCRC data len = crcLoop (take len data) 0xFFFF"

text \<open>The two statements that store a CRC into the last two bytes of a 7-byte
  message: \<^verbatim>\<open>msg[5] = crc & 0xFF; msg[6] = (crc >> 8) & 0xFF\<close>.\<close>

definition storeCRC :: "byte list \<Rightarrow> byte list" where
  "storeCRC msg =
     (let crc = calculateModbusCRC msg (length msg - 2)
      in (msg[5 := ucast (crc AND 0xFF)])[6 := ucast (drop_bit 8 crc AND 0xFF)])"

definition initSeq :: "byte list" where
  "initSeq = [0xFF, 0x43, 0x06, 0x06, 0x42, 0x46, 0xFF, 0x43, 0x06, 0x06, 0x42, 0x46]"

definition pollMsg :: "int \<Rightarrow> byte list" where
  "pollMsg batteryAddr = storeCRC [0xFF, 0x50, 0x06, 0x0, word_of_int batteryAddr, 0x00, 0x00]"

definition dataRequest :: "int \<Rightarrow> byte list" where
  "dataRequest batteryIndex = storeCRC [0xFF, 0x61, 0x06, word_of_int batteryIndex, 0x00, 0x00, 0x00]"

text \<open>The CRC-16 as the specification words it, on natural numbers: the seed is
  \<open>0xFFFF\<close>; a byte is XORed into the low byte of the running value; then eight
  times, if the low bit is set the value is shifted right and XORed with \<open>0xA001\<close>,
  else it is shifted right.\<close>

definition crc16_shift :: "nat \<Rightarrow> nat" where
  "crc16_shift c = (if odd c then (c div 2) XOR 0xA001 else c div 2)"

definition crc16_byte :: "nat \<Rightarrow> nat \<Rightarrow> nat" where
  "crc16_byte c b = (crc16_shift ^^ 8) ((c div 256) * 256 + ((c mod 256) XOR b))"

definition crc16 :: "nat list \<Rightarrow> nat" where
  "crc16 bs = foldl crc16_byte 0xFFFF bs"

subsection \<open>parseValenceBatteryData\<close>

text \<open>\<^verbatim>\<open>(hi << 8) | lo\<close> on two bytes: both are promoted to \<^verbatim>\<open>int\<close>, and the result
  is converted to a 16-bit type.\<close>

definition shl8_or :: "byte \<Rightarrow> byte \<Rightarrow> 16 word" where
  "shl8_or hi lo = ucast (push_bit 8 (ucast hi :: 32 word) OR (ucast lo :: 32 word))"

text \<open>The loop \<^verbatim>\<open>for (i = 0; i < 6 && (20 + i * 2 + 1) < length; i++)\<close> over the cell
  voltages.\<close>

function cellLoop :: "byte list \<Rightarrow> nat \<Rightarrow> BatteryData \<Rightarrow> BatteryData" where
  "cellLoop data i battery =
     (if i < 6 \<and> 20 + i * 2 + 1 < length data
      then let cellVoltageRaw = shl8_or (data ! (21 + i * 2)) (data ! (20 + i * 2))
           in cellLoop data (Suc i)
                (battery\<lparr>cellVoltages := (cellVoltages battery)(i := real_of_int (uint cellVoltageRaw) * 0.001)\<rparr>)
      else battery)"
  by pat_completeness auto
termination
  by (relation "measure (\<lambda>(data, i, battery). 6 - i)") auto

text \<open>The assignments of \<^verbatim>\<open>parseValenceBatteryData\<close> to the slot \<^verbatim>\<open>battery\<close> points to,
  in the order of the source, once its guards have passed.\<close>

definition decodeFrame :: "byte list \<Rightarrow> world \<Rightarrow> BatteryData \<Rightarrow> BatteryData" where
  "decodeFrame data w battery =
     (let voltageRaw = shl8_or (data ! 11) (data ! 10);
          battery = battery\<lparr>voltage := real_of_int (uint voltageRaw) * 0.01\<rparr>;
          currentRaw = shl8_or (data ! 13) (data ! 12);
          battery = battery\<lparr>current := real_of_int (sint currentRaw) * 0.1\<rparr>;
          battery = (if length data > 15 then battery\<lparr>soc := uint (data ! 15)\<rparr> else battery);
          battery = (if length data > 16
                     then battery\<lparr>temperature := real_of_int (sint (data ! 16))\<rparr> else battery);
          battery = (if length data > 30 then cellLoop data 0 battery else battery);
          battery = (if length data > 35
                     then battery\<lparr>current2 :=
                            real_of_int (sint (shl8_or (data ! 35) (data ! 34))) * 0.1\<rparr>
                     else battery);
          battery = battery\<lparr>power_w := voltage battery * \<bar>current battery\<bar>\<rparr>;
          battery = battery\<lparr>valid := True\<rparr>;
          battery = battery\<lparr>lastUpdate := millis w\<rparr>
      in battery)"

text \<open>The function itself: the two guards, then the decoding into
  \<^verbatim>\<open>batteries[batteryIndex]\<close>. Neither guard rejects a negative index; the write would
  then land below the array, which the model reports as \<open>None\<close>.\<close>

definition parseValenceBatteryData ::
  "byte list \<Rightarrow> int \<Rightarrow> world \<Rightarrow> engine \<Rightarrow> (bool \<times> engine) option" where
  "parseValenceBatteryData data batteryIndex w s =
     (if int (length data) < 20 \<or> batteryIndex \<ge> MAX_BATTERIES then Some (False, s)
      else if data ! 0 \<noteq> 0xFF then Some (False, s)
      else if batteryIndex < 0 then None
      else
        let k = nat batteryIndex
        in Some (True, s\<lparr>batteries := (batteries s)(k := decodeFrame data w (batteries s k))\<rparr>))"

subsection \<open>parseBatteryID\<close>

definition printable :: "byte \<Rightarrow> bool" where
  "printable b \<longleftrightarrow> b \<ge> 0x20 \<and> b \<le> 0x7E"

text \<open>The loop \<^verbatim>\<open>for (i = 3; i < length - 2; i++)\<close>; the bound is computed on \<^verbatim>\<open>int\<close>.\<close>

function idLoop :: "byte list \<Rightarrow> nat \<Rightarrow> string \<Rightarrow> string" where
  "idLoop data i ident =
     (if int i < int (length data) - 2
      then idLoop data (Suc i)
             (if printable (data ! i) then ident @ [char_of (unat (data ! i))] else ident)
      else ident)"
  by pat_completeness auto
termination
  by (relation "measure (\<lambda>(data, i, ident). length data - i)") auto

definition parseBatteryID :: "byte list \<Rightarrow> string" where
  "parseBatteryID data = (if int (length data) < 15 then [] else idLoop data 3 [])"

subsection \<open>generateTestData\<close>

text \<open>\<^verbatim>\<open>String(n)\<close> of the Arduino library: the decimal digits of an integer.\<close>

fun decimal :: "nat \<Rightarrow> string" where
  "decimal n = (if n < 10 then [char_of (48 + n)] else decimal (n div 10) @ [char_of (48 + n mod 10)])"

definition String_of_int :: "int \<Rightarrow> string" where
  "String_of_int n = (if n < 0 then CHR ''-'' # decimal (nat (- n)) else decimal (nat n))"

text \<open>The loop \<^verbatim>\<open>for (j = 0; j < 6; j++)\<close> over the synthetic cell voltages, by the
  number of cells left; each round draws one random number.\<close>

function testCells :: "real \<Rightarrow> nat \<Rightarrow> BatteryData \<Rightarrow> world \<Rightarrow> BatteryData \<times> world" where
  "testCells avgCellVoltage j battery w =
     (if j < 6
      then let (r, w) = random (-30) 30 w
           in testCells avgCellVoltage (Suc j)
                (battery\<lparr>cellVoltages := (cellVoltages battery)(j := avgCellVoltage + real_of_int r * 0.001)\<rparr>) w
      else (battery, w))"
  by pat_completeness auto
termination
  by (relation "measure (\<lambda>(avgCellVoltage, j, battery, w). 6 - j)") auto

text \<open>The body of the loop of \<^verbatim>\<open>generateTestData\<close> for slot \<open>i\<close>.\<close>

definition testSlot :: "nat \<Rightarrow> engine \<Rightarrow> world \<Rightarrow> engine \<times> world" where
  "testSlot i s w =
     (let battery = batteries s i;
          (r, w) = random (-20) 20 w;
          battery = battery\<lparr>voltage := 12.0 + real i * 0.1 + real_of_int r * 0.01\<rparr>;
          (r, w) = random (-40) 40 w;
          battery = battery\<lparr>current := -8.0 + real_of_int r * 0.1\<rparr>;
          battery = battery\<lparr>power_w := \<bar>voltage battery * current battery\<bar>\<rparr>;
          (r, w) = random (-8) 8 w;
          battery = battery\<lparr>soc := 65 + int i * 8 + r\<rparr>;
          (r, w) = random (-5) 12 w;
          battery = battery\<lparr>temperature := 23.0 + real_of_int r\<rparr>;
          avgCellVoltage = voltage battery / 4.0;
          (battery, w) = testCells avgCellVoltage 0 battery w;
          (r, w) = random (-5) 5 w;
          battery = battery\<lparr>current2 := current battery + real_of_int r * 0.01\<rparr>;
          battery = battery\<lparr>cycles := 180 + word_of_nat i * 25\<rparr>;
          battery = battery\<lparr>batteryID := ''TEST_BAT_'' @ String_of_int (int i + 1)\<rparr>;
          battery = battery\<lparr>valid := True\<rparr>;
          battery = battery\<lparr>lastUpdate := millis w\<rparr>;
          battery = (if soc battery > 100 then battery\<lparr>soc := 100\<rparr> else battery);
          battery = (if soc battery < 0 then battery\<lparr>soc := 0\<rparr> else battery)
      in (s\<lparr>batteries := (batteries s)(i := battery)\<rparr>, w))"

lemma activeBatteryCount_testSlot: "activeBatteryCount (fst (testSlot i s w)) = activeBatteryCount s"
  by (simp add: testSlot_def Let_def split: prod.splits)

text \<open>The loop \<^verbatim>\<open>for (i = 0; i < activeBatteryCount; i++)\<close>.\<close>

function testLoop :: "nat \<Rightarrow> engine \<Rightarrow> world \<Rightarrow> engine \<times> world" where
  "testLoop i s w =
     (if int i < activeBatteryCount s
      then case testSlot i s w of (s', w') \<Rightarrow> testLoop (Suc i) s' w'
      else (s, w))"
  by pat_completeness auto
termination
proof (relation "measure (\<lambda>(i, s, w). nat (activeBatteryCount s) - i)", goal_cases)
  case 1
  show ?case by simp
next
  case (2 i s w s' w')
  then show ?case
    using activeBatteryCount_testSlot [of i s w] by (simp add: split_beta)
qed

definition generateTestData :: "engine \<Rightarrow> world \<Rightarrow> engine \<times> world" where
  "generateTestData s w =
     (case testLoop 0 (s\<lparr>activeBatteryCount := 4\<rparr>) w of
        (s', w') \<Rightarrow> (s'\<lparr>protocolInitialized := True\<rparr>, w'))"

subsection \<open>Reading from Serial2\<close>

text \<open>\<^verbatim>\<open>while (Serial2.available()) Serial2.read();\<close> discards what has arrived.\<close>

function drain :: "world \<Rightarrow> world" where
  "drain w =
     (if Serial2_available w \<noteq> 0
      then case Serial2_read w of Some (b, w') \<Rightarrow> drain w' | None \<Rightarrow> w
      else w)"
  by pat_completeness auto
termination
  by (relation "measure (\<lambda>w. length (rxq w))")
    (auto simp: Serial2_read_def split: list.splits if_splits)

text \<open>\<^verbatim>\<open>while (Serial2.available() && bytesRead < 64) response[bytesRead++] = Serial2.read();\<close>\<close>

function readAvailable :: "byte list \<Rightarrow> world \<Rightarrow> byte list \<times> world" where
  "readAvailable response w =
     (if Serial2_available w \<noteq> 0 \<and> length response < 64
      then case Serial2_read w of
             Some (b, w') \<Rightarrow> readAvailable (response @ [b]) w'
           | None \<Rightarrow> (response, w)
      else (response, w))"
  by pat_completeness auto
termination
  by (relation "measure (\<lambda>(response, w). length (rxq w))")
    (auto simp: Serial2_read_def split: list.splits if_splits)

text \<open>The response loop of \<^verbatim>\<open>requestSingleBatteryData\<close>:
  \<^verbatim>\<open>while (millis() < timeout && bytesReceived < 128) {
       if (Serial2.available()) { response[bytesReceived++] = Serial2.read();
                                  timeout = millis() + 100; }
       delay(1); }\<close>\<close>

lemma millis_delay_1: "millis (delay 1 w) = millis w + 1"
  by (simp add: millis_def delay_def)

lemma unat_gap_decreases:
  fixes now timeout :: "32 word"
  assumes "now < timeout"
  shows "unat timeout - unat (now + 1) < unat timeout - unat now"
proof -
  from assms have a: "unat now < unat timeout"
    by (simp add: word_less_nat_alt)
  have b: "unat timeout < 2 ^ 32"
    using unsigned_less [of timeout] by simp
  have "unat (now + 1) = (unat now + 1) mod 2 ^ 32"
    by (simp add: unat_word_ariths)
  with a b have "unat (now + 1) = unat now + 1"
    by simp
  with a show ?thesis by simp
qed

lemma readLoop_gap:
  "millis w < timeout \<Longrightarrow>
   unat timeout - unat (millis (delay (Suc 0) w)) < unat timeout - unat (millis w)"
  using unat_gap_decreases [of "millis w" timeout] millis_delay_1 [of w] by simp

text \<open>One round of the loop: a byte that has arrived is stored and re-arms the
  deadline at 100 ms from now; then \<^verbatim>\<open>delay(1)\<close>.\<close>

definition readStep :: "32 word \<Rightarrow> byte list \<Rightarrow> world \<Rightarrow> 32 word \<times> byte list \<times> world" where
  "readStep timeout response w =
     (case (if Serial2_available w \<noteq> 0 then Serial2_read w else None) of
        Some (b, w') \<Rightarrow> (millis w' + 100, response @ [b], delay 1 w')
      | None \<Rightarrow> (timeout, response, delay 1 w))"

lemma readStep_measure:
  assumes "readStep timeout response w = (timeout', response', w')"
    and "millis w < timeout" and "length response < 128"
  shows "128 - length response' < 128 - length response
       \<or> (128 - length response' = 128 - length response
          \<and> unat timeout' - unat (millis w') < unat timeout - unat (millis w))"
proof (cases "if Serial2_available w \<noteq> 0 then Serial2_read w else None")
  case None
  with assms(1) have "timeout' = timeout" "response' = response" "w' = delay (Suc 0) w"
    by (simp_all add: readStep_def)
  with assms(2) show ?thesis
    by (simp add: readLoop_gap)
next
  case (Some p)
  with assms(1) have "length response' = Suc (length response)"
    by (cases p) (auto simp: readStep_def)
  with assms(3) show ?thesis
    by arith
qed

function readLoop :: "32 word \<Rightarrow> byte list \<Rightarrow> world \<Rightarrow> byte list \<times> world" where
  "readLoop timeout response w =
     (if millis w < timeout \<and> length response < 128
      then case readStep timeout response w of
             (timeout', response', w') \<Rightarrow> readLoop timeout' response' w'
      else (response, w))"
  by pat_completeness auto
termination
proof (relation "measures [\<lambda>(timeout, response, w). 128 - length response,
                            \<lambda>(timeout, response, w). unat timeout - unat (millis w)]", goal_cases)
  case 1
  show ?case by simp
next
  case (2 timeout response w timeout' p response' w')
  then have e: "readStep timeout response w = (timeout', response', w')"
    and "millis w < timeout" and "length response < 128"
    by simp_all
  from readStep_measure [OF this] show ?case
    by (auto simp: e)
qed

subsection \<open>requestSingleBatteryData and requestBatteryData\<close>

text \<open>The first half of \<^verbatim>\<open>requestSingleBatteryData\<close>: discard pending bytes, send the
  request, collect the response.\<close>

definition receiveResponse :: "int \<Rightarrow> world \<Rightarrow> byte list \<times> world" where
  "receiveResponse batteryIndex w =
     (let w = drain w;
          w = Serial2_write (dataRequest batteryIndex) w
      in readLoop (millis w + RESPONSE_TIMEOUT) [] w)"

definition requestSingleBatteryData ::
  "int \<Rightarrow> engine \<Rightarrow> world \<Rightarrow> (bool \<times> engine \<times> world) option" where
  "requestSingleBatteryData batteryIndex s w =
     (if batteryIndex \<ge> MAX_BATTERIES then Some (False, s, w)
      else
        case receiveResponse batteryIndex w of
          (response, w) \<Rightarrow>
            if int (length response) \<ge> 20
            then case parseValenceBatteryData response batteryIndex w s of
                   None \<Rightarrow> None
                 | Some (ok, s') \<Rightarrow> Some (ok, s', w)
            else if activeBatteryCount s = 0
                 then case generateTestData s w of (s', w') \<Rightarrow> Some (True, s', w')
                 else Some (False, s, w))"

lemma activeBatteryCount_parse:
  "parseValenceBatteryData data batteryIndex w s = Some (ok, s') \<Longrightarrow>
   activeBatteryCount s' = activeBatteryCount s"
  by (auto simp: parseValenceBatteryData_def Let_def split: if_splits)

lemma activeBatteryCount_request:
  assumes r: "requestSingleBatteryData batteryIndex s w = Some (ok, s', w')"
    and nz: "activeBatteryCount s \<noteq> 0"
  shows "activeBatteryCount s' = activeBatteryCount s"
proof (cases "batteryIndex \<ge> MAX_BATTERIES")
  case True
  with r show ?thesis by (simp add: requestSingleBatteryData_def)
next
  case False
  obtain response w1 where rr: "receiveResponse batteryIndex w = (response, w1)"
    by (cases "receiveResponse batteryIndex w")
  show ?thesis
  proof (cases "int (length response) \<ge> 20")
    case True
    with r rr False obtain p where
      "parseValenceBatteryData response batteryIndex w1 s = Some p" and "fst p = ok" and "fst (snd (ok, s', w')) = snd p"
      by (auto simp: requestSingleBatteryData_def split: option.splits)
    then have "parseValenceBatteryData response batteryIndex w1 s = Some (ok, s')"
      by (cases p) simp
    then show ?thesis by (rule activeBatteryCount_parse)
  next
    case short: False
    with r rr False nz show ?thesis
      by (simp add: requestSingleBatteryData_def)
  qed
qed

text \<open>The loop \<^verbatim>\<open>for (i = 0; i < activeBatteryCount; i++)\<close> of \<^verbatim>\<open>requestBatteryData\<close>,
  with its \<^verbatim>\<open>delay(150)\<close> between two requests.\<close>

function pollLoop :: "nat \<Rightarrow> engine \<Rightarrow> world \<Rightarrow> (engine \<times> world) option" where
  "pollLoop i s w =
     (if int i < activeBatteryCount s
      then case requestSingleBatteryData (int i) s w of
             None \<Rightarrow> None
           | Some (ok, s', w') \<Rightarrow> pollLoop (Suc i) s' (delay 150 w')
      else Some (s, w))"
  by pat_completeness auto
termination
proof (relation "measure (\<lambda>(i, s, w). nat (activeBatteryCount s) - i)", goal_cases)
  case 1
  show ?case by simp
next
  case (2 i s w r ok p s' w')
  from 2(1) have nz: "activeBatteryCount s \<noteq> 0" by simp
  from 2(2-4) have "requestSingleBatteryData (int i) s w = Some (ok, s', w')" by simp
  from activeBatteryCount_request [OF this nz] have "activeBatteryCount s' = activeBatteryCount s" .
  with 2(1) show ?case by simp
qed


subsection \<open>initializeValenceProtocol\<close>

text \<open>The loop that clears the previous state.\<close>

function clearLoop :: "nat \<Rightarrow> engine \<Rightarrow> engine" where
  "clearLoop i s =
     (if int i < MAX_BATTERIES
      then clearLoop (Suc i)
             (s\<lparr>batteries := (batteries s)(i := (batteries s i)\<lparr>valid := False\<rparr>),
                batteryIDsAssigned := (batteryIDsAssigned s)(i := False),
                discoveredBatteryIDs := (discoveredBatteryIDs s)(i := [])\<rparr>)
      else s)"
  by pat_completeness auto
termination
  by (relation "measure (\<lambda>(i, s). nat MAX_BATTERIES - i)") (auto simp: MAX_BATTERIES_def)

text \<open>The body of the scan loop for one address, in its three parts. First the
  exchange: send the poll, wait 200 ms, and if at least 10 bytes have arrived read up to
  64 of them.\<close>

definition pollAddress :: "nat \<Rightarrow> world \<Rightarrow> byte list option \<times> world" where
  "pollAddress batteryAddr w =
     (let w = Serial2_write (pollMsg (int batteryAddr)) w;
          w = delay 200 w
      in if Serial2_available w \<ge> 10
         then case readAvailable [] w of (response, w) \<Rightarrow> (Some response, w)
         else (None, w))"

text \<open>Then the assignment of a non-empty identifier to the next free slot.\<close>

definition assignSlot :: "nat \<Rightarrow> string \<Rightarrow> engine \<Rightarrow> engine" where
  "assignSlot foundBatteries ident s =
     s\<lparr>discoveredBatteryIDs := (discoveredBatteryIDs s)(foundBatteries := ident),
       batteries := (batteries s)
         (foundBatteries := (batteries s foundBatteries)\<lparr>batteryID := ident\<rparr>)\<rparr>"

definition acceptResponse :: "byte list \<Rightarrow> nat \<Rightarrow> engine \<Rightarrow> nat \<times> engine" where
  "acceptResponse response foundBatteries s =
     (if int (length response) \<ge> 10 \<and> response ! 0 = 0xFF \<and> response ! 1 = 0x70
      then
        let ident = parseBatteryID response
        in if length ident > 0
           then (Suc foundBatteries, assignSlot foundBatteries ident s)
           else (foundBatteries, s)
      else (foundBatteries, s))"

text \<open>Last, whatever is left in the receive buffer is discarded, and the loop waits
  100 ms.\<close>

definition scanStep :: "nat \<Rightarrow> nat \<Rightarrow> engine \<Rightarrow> world \<Rightarrow> nat \<times> engine \<times> world" where
  "scanStep batteryAddr foundBatteries s w =
     (case pollAddress batteryAddr w of
        (r, w) \<Rightarrow>
          let (foundBatteries', s') =
                (case r of
                   Some response \<Rightarrow> acceptResponse response foundBatteries s
                 | None \<Rightarrow> (foundBatteries, s));
              w = drain w;
              w = delay 100 w
          in (foundBatteries', s', w))"

text \<open>The scan \<^verbatim>\<open>for (batteryAddr = 0; batteryAddr <= 5 && foundBatteries < MAX_BATTERIES;
  batteryAddr++)\<close>. Both counters start at 0 and only go up, so they are natural
  numbers here.\<close>

function scanLoop :: "nat \<Rightarrow> nat \<Rightarrow> engine \<Rightarrow> world \<Rightarrow> nat \<times> engine \<times> world" where
  "scanLoop batteryAddr foundBatteries s w =
     (if batteryAddr \<le> 5 \<and> int foundBatteries < MAX_BATTERIES
      then case scanStep batteryAddr foundBatteries s w of
             (foundBatteries', s', w') \<Rightarrow> scanLoop (Suc batteryAddr) foundBatteries' s' w'
      else (foundBatteries, s, w))"
  by pat_completeness auto
termination
  by (relation "measure (\<lambda>(batteryAddr, foundBatteries, s, w). 6 - batteryAddr)") auto

text \<open>Steps 1 and 2 of \<^verbatim>\<open>initializeValenceProtocol\<close>: clear the previous state, send the
  initialization sequence, scan the addresses. The result is \<^verbatim>\<open>foundBatteries\<close> with the
  state and the world after the scan.\<close>

definition discoveryScan :: "engine \<Rightarrow> world \<Rightarrow> nat \<times> engine \<times> world" where
  "discoveryScan s w =
     (let s = clearLoop 0 s;
          s = s\<lparr>activeBatteryCount := 0\<rparr>;
          w = Serial2_write initSeq w;
          w = delay 100 w
      in scanLoop 0 0 s w)"

text \<open>The whole function: the scan, then step 3, or the test data when nothing was found.\<close>

definition initializeValenceProtocol :: "engine \<Rightarrow> world \<Rightarrow> engine \<times> world" where
  "initializeValenceProtocol s w =
     (case discoveryScan s w of
        (foundBatteries, s, w) \<Rightarrow>
          if foundBatteries > 0
          then
            let w = Serial2_write initSeq w;
                w = delay 100 w;
                s = s\<lparr>activeBatteryCount := int foundBatteries\<rparr>;
                s = s\<lparr>protocolInitialized := True\<rparr>
            in (s, w)
          else
            case generateTestData s w of (s, w) \<Rightarrow> (s\<lparr>protocolInitialized := True\<rparr>, w))"

subsection \<open>The notions of the specification\<close>

text \<open>A frame ends with its CRC: its last two bytes are the low and the high byte of the
  CRC-16 of the bytes before them.\<close>

definition crc_trailer :: "byte list \<Rightarrow> bool" where
  "crc_trailer frame \<longleftrightarrow>
     length frame \<ge> 2 \<and>
     (let n = length frame - 2; c = crc16 (map unat (take n frame))
      in unat (frame ! n) = c mod 256 \<and> unat (frame ! (n + 1)) = c div 256)"

text \<open>The unsigned and the signed little-endian 16-bit value at an offset of a buffer,
  and the signed value of a byte, by their arithmetic meaning.\<close>

definition u16le :: "byte list \<Rightarrow> nat \<Rightarrow> int" where
  "u16le buf off = uint (buf ! off) + 256 * uint (buf ! (off + 1))"

definition s16le :: "byte list \<Rightarrow> nat \<Rightarrow> int" where
  "s16le buf off = (let u = u16le buf off in if u < 32768 then u else u - 65536)"

definition s8 :: "byte \<Rightarrow> int" where
  "s8 b = (if uint b < 128 then uint b else uint b - 256)"

text \<open>The identifier as the specification words it: the maximal run of printable
  characters that starts at offset 3 and ends at the latest 2 bytes before the end.\<close>

definition printable_run :: "byte list \<Rightarrow> byte list" where
  "printable_run buf = takeWhile printable (drop 3 (take (length buf - 2) buf))"

text \<open>The exchanges of the scan do not depend on the registry, so the responses a pass
  reads can be named from the world alone: the world at the head of round \<open>a\<close> (after the
  initialization sequence and the rounds before it), and the bytes the round for address
  \<open>a\<close> reads there (none when fewer than 10 have arrived).\<close>

definition afterPoll :: "nat \<Rightarrow> world \<Rightarrow> world" where
  "afterPoll a w = delay 100 (drain (snd (pollAddress a w)))"

primrec worldAt :: "world \<Rightarrow> nat \<Rightarrow> world" where
  "worldAt w 0 = delay 100 (Serial2_write initSeq w)"
| "worldAt w (Suc a) = afterPoll a (worldAt w a)"

definition heard :: "nat \<Rightarrow> world \<Rightarrow> byte list" where
  "heard a w = (case fst (pollAddress a w) of Some response \<Rightarrow> response | None \<Rightarrow> [])"

definition seen :: "world \<Rightarrow> nat \<Rightarrow> byte list" where
  "seen w a = heard a (worldAt w a)"

text \<open>A valid response: at least 10 bytes, the header \<open>0xFF 0x70\<close>, a non-empty
  identifier. The addresses, in increasing order, at which a pass started in world \<open>w\<close>
  hears one.\<close>

definition validResponse :: "byte list \<Rightarrow> bool" where
  "validResponse r \<longleftrightarrow> 10 \<le> length r \<and> r ! 0 = 0xFF \<and> r ! 1 = 0x70 \<and> parseBatteryID r \<noteq> []"

definition validAddresses :: "world \<Rightarrow> nat list" where
  "validAddresses w = filter (\<lambda>a. validResponse (seen w a)) [0..<6]"

text \<open>The addresses from \<open>a\<close> on at which the pass hears a valid response.\<close>

definition validFrom :: "world \<Rightarrow> nat \<Rightarrow> nat list" where
  "validFrom w a = filter (\<lambda>x. validResponse (seen w x)) [a..<6]"

text \<open>What has arrived by now: the longest prefix of the queue whose arrival times are
  not in the future.\<close>

definition arrived :: "world \<Rightarrow> (nat \<times> byte) list" where
  "arrived w = takeWhile (\<lambda>(t, b). t \<le> clock w) (rxq w)"

subsection \<open>Concrete states, frames and buses\<close>

text \<open>The engine as \<^verbatim>\<open>setup()\<close> leaves it: zero-initialised globals, every slot invalid.\<close>

definition boot_slot :: BatteryData where
  "boot_slot = \<lparr>voltage = 0, current = 0, power_w = 0, soc = 0, temperature = 0,
                 cellVoltages = (\<lambda>j. 0), current2 = 0, cycles = 0, valid = False,
                 lastUpdate = 0, batteryID = []\<rparr>"

definition boot_engine :: engine where
  "boot_engine = \<lparr>batteries = (\<lambda>i. boot_slot), activeBatteryCount = 0,
                   protocolInitialized = False, batteryIDsAssigned = (\<lambda>i. False),
                   discoveredBatteryIDs = (\<lambda>i. [])\<rparr>"

text \<open>A bus on which nothing ever arrives, at boot time; \<^verbatim>\<open>random(lo, hi)\<close> returns \<open>lo\<close>.\<close>

definition silent_world :: world where
  "silent_world = \<lparr>clock = 0, rxq = [], tx = [], rand_calls = 0,
                    rand_result = (\<lambda>k lo hi. lo)\<rparr>"

text \<open>A 20-byte data frame: 50.00 V (\<open>0x1388\<close>), -8.0 A (\<open>0xFFB0\<close>), 100 percent,
  -10 degrees (\<open>0xF6\<close>).\<close>

definition frame20 :: "byte list" where
  "frame20 = [0xFF, 0, 0, 0, 0, 0, 0, 0, 0, 0, 0x88, 0x13, 0xB0, 0xFF, 0, 0x64, 0xF6, 0, 0, 0]"

text \<open>A 31-byte frame: the same header, then eleven bytes of which the last, at
  offset 30, is 1. Offset 31 is past its end.\<close>

definition frame31 :: "byte list" where
  "frame31 = frame20 @ [0xE8, 0x03, 0xE9, 0x03, 0xEA, 0x03, 0xEB, 0x03, 0xEC, 0x03, 0x01]"

text \<open>A 36-byte frame: six cell voltages 1.000 V to 1.005 V, and a secondary
  current of -7.9 A (\<open>0xFFB1\<close>).\<close>

definition frame36 :: "byte list" where
  "frame36 = frame20 @ [0xE8, 0x03, 0xE9, 0x03, 0xEA, 0x03, 0xEB, 0x03, 0xEC, 0x03, 0xED, 0x03,
                        0, 0, 0xB1, 0xFF]"

text \<open>A 10-byte discovery response with the identifier \<open>ABCDE\<close>, the 17-byte example of the
  source's comment, and a 15-byte response whose identifier bytes are interrupted by a
  zero byte.\<close>

definition response10 :: "byte list" where
  "response10 = [0xFF, 0x70, 0x11, 0x41, 0x42, 0x43, 0x44, 0x45, 0x50, 0xB9]"

definition response17 :: "byte list" where
  "response17 = [0xFF, 0x70, 0x11, 0x43, 0x42, 0x42, 0x31, 0x31, 0x32, 0x38, 0x31, 0x30, 0x33,
                 0x31, 0x38, 0x50, 0xB9]"

definition response15 :: "byte list" where
  "response15 = [0xFF, 0x70, 0x11, 0x41, 0x42, 0x00, 0x43, 0x44, 0x45, 0x46, 0x47, 0x48, 0x49,
                 0x50, 0xB9]"

text \<open>An engine with one active battery whose slot holds the reading of the 20-byte
  frame, and a bus that answers with 20 bytes starting with \<open>0xFE\<close>, all arriving 1 ms
  after the request.\<close>

definition polled_engine :: engine where
  "polled_engine = boot_engine\<lparr>batteries := (batteries boot_engine)
                       (0 := decodeFrame frame20 silent_world boot_slot),
                     activeBatteryCount := 1, protocolInitialized := True\<rparr>"

definition garbled_world :: world where
  "garbled_world = \<lparr>clock = 0, rxq = map (Pair 1) (0xFE # tl frame20), tx = [], rand_calls = 0,
                     rand_result = (\<lambda>k lo hi. lo)\<rparr>"

text \<open>A response whose first byte arrives 5 ms after the request and whose second byte
  arrives at 300 ms, well inside the overall timeout of 1000 ms.\<close>

definition pausing_world :: world where
  "pausing_world = \<lparr>clock = 0, rxq = [(5, 0xFF), (300, 0x01)], tx = [], rand_calls = 0,
                     rand_result = (\<lambda>k lo hi. lo)\<rparr>"

text \<open>Discovery responses like the one of the source's comment, with the last character
  of the identifier varying; a bus with two batteries, answering at the addresses 1 and 3;
  a bus with four, answering at the addresses 0 to 3. The round for address \<open>a\<close> reads
  at 300 ms times \<open>a + 1\<close> what has arrived since the round before.\<close>

definition id_response :: "byte \<Rightarrow> byte list" where
  "id_response c = [0xFF, 0x70, 0x11, 0x43, 0x42, 0x42, 0x31, 0x31, 0x32, 0x38, 0x31, 0x30, 0x33,
                    0x31, c, 0x50, 0xB9]"

definition two_battery_world :: world where
  "two_battery_world =
     \<lparr>clock = 0,
      rxq = map (Pair 400) (id_response 0x38) @ map (Pair 1000) (id_response 0x39),
      tx = [], rand_calls = 0, rand_result = (\<lambda>k lo hi. lo)\<rparr>"

definition four_battery_world :: world where
  "four_battery_world =
     \<lparr>clock = 0,
      rxq = map (Pair 150) (id_response 0x31) @ map (Pair 400) (id_response 0x32)
            @ map (Pair 700) (id_response 0x33) @ map (Pair 1000) (id_response 0x34),
      tx = [], rand_calls = 0, rand_result = (\<lambda>k lo hi. lo)\<rparr>"

subsection \<open>The runs of the sketch\<close>


subsection \<open>Bytes, words and numbers\<close>

lemma nat_shl8_or:
  fixes l h :: nat
  assumes "l < 256"
  shows "push_bit 8 h OR l = l + 256 * h"
proof -
  from assms have l: "take_bit 8 l = l"
    by (simp add: take_bit_nat_eq_self)
  have "push_bit 8 h AND take_bit 8 l = 0"
    by (rule bit_eqI) (auto simp: bit_simps)
  with l have "push_bit 8 h AND l = 0"
    by simp
  then have "push_bit 8 h + l = push_bit 8 h OR l"
    by (rule disjunctive_add_eq_or)
  then show ?thesis
    by (simp add: push_bit_eq_mult)
qed

lemma unat_shl8_or: "unat (shl8_or hi lo) = unat lo + 256 * unat hi"
proof -
  have h: "unat hi < 256" and l: "unat lo < 256"
    using unsigned_less [of hi] unsigned_less [of lo] by simp_all
  from h have "push_bit 8 (unat hi) < (2::nat) ^ 16"
    by (simp add: push_bit_eq_mult)
  then have p: "take_bit 32 (push_bit 8 (unat hi)) = push_bit 8 (unat hi)"
    by (simp add: take_bit_nat_eq_self)
  have s: "push_bit 8 (unat hi) OR unat lo = unat lo + 256 * unat hi"
    using l by (rule nat_shl8_or)
  from h l have "unat lo + 256 * unat hi < 2 ^ 16"
    by simp
  then have t: "take_bit 16 (unat lo + 256 * unat hi) = unat lo + 256 * unat hi"
    by (simp add: take_bit_nat_eq_self)
  have u1: "unat (ucast hi :: 32 word) = unat hi" and u2: "unat (ucast lo :: 32 word) = unat lo"
    using h l by (simp_all add: unsigned_ucast_eq take_bit_nat_eq_self)
  have u3: "unat (push_bit 8 (ucast hi :: 32 word)) = push_bit 8 (unat hi)"
    using p by (simp only: unsigned_push_bit_eq u1) simp
  have "unat (shl8_or hi lo) =
        take_bit 16 (unat (push_bit 8 (ucast hi :: 32 word) OR (ucast lo :: 32 word)))"
    unfolding shl8_or_def by (subst unsigned_ucast_eq) simp
  also have "\<dots> = take_bit 16 (push_bit 8 (unat hi) OR unat lo)"
    by (simp only: unsigned_or_eq u2 u3)
  finally show ?thesis
    using s t by simp
qed

lemma uint_shl8_or: "uint (shl8_or hi lo) = uint lo + 256 * uint hi"
proof -
  have "uint (shl8_or hi lo) = int (unat (shl8_or hi lo))"
    by simp
  also have "\<dots> = int (unat lo + 256 * unat hi)"
    by (simp only: unat_shl8_or)
  finally show ?thesis
    by simp
qed

lemma sint16_uint:
  fixes x :: "16 word"
  shows "sint x = (if uint x < 32768 then uint x else uint x - 65536)"
proof -
  have b: "uint x < 65536" and nn: "0 \<le> uint x"
    using unsigned_less [of x, where 'a = int] by simp_all
  have "sint (word_of_int (uint x) :: 16 word) = (uint x + 2 ^ (16 - 1)) mod 2 ^ 16 - 2 ^ (16 - 1)"
    using int_word_sint [where 'a = 16 and x = "uint x"] by simp
  then have e: "sint x = (uint x + 32768) mod 65536 - 32768"
    by simp
  show ?thesis
  proof (cases "uint x < 32768")
    case True
    with nn have "(uint x + 32768) mod 65536 = uint x + 32768"
      by simp
    with e True show ?thesis by simp
  next
    case False
    have "(uint x + 32768) mod 65536 = (uint x - 32768 + 65536) mod 65536"
      by (simp add: algebra_simps)
    also have "\<dots> = (uint x - 32768) mod 65536"
      by (rule mod_add_self2)
    also have "\<dots> = uint x - 32768"
      using False b by simp
    finally show ?thesis
      using e False by simp
  qed
qed

lemma sint8_uint:
  fixes x :: "8 word"
  shows "sint x = (if uint x < 128 then uint x else uint x - 256)"
proof -
  have b: "uint x < 256" and nn: "0 \<le> uint x"
    using unsigned_less [of x, where 'a = int] by simp_all
  have "sint (word_of_int (uint x) :: 8 word) = (uint x + 2 ^ (8 - 1)) mod 2 ^ 8 - 2 ^ (8 - 1)"
    using int_word_sint [where 'a = 8 and x = "uint x"] by simp
  then have e: "sint x = (uint x + 128) mod 256 - 128"
    by simp
  show ?thesis
  proof (cases "uint x < 128")
    case True
    with nn have "(uint x + 128) mod 256 = uint x + 128"
      by simp
    with e True show ?thesis by simp
  next
    case False
    have "(uint x + 128) mod 256 = (uint x - 128 + 256) mod 256"
      by (simp add: algebra_simps)
    also have "\<dots> = (uint x - 128) mod 256"
      by (rule mod_add_self2)
    also have "\<dots> = uint x - 128"
      using False b by simp
    finally show ?thesis
      using e False by simp
  qed
qed

lemma xor_low_byte:
  fixes c b :: nat
  assumes "b < 256"
  shows "c XOR b = (c div 256) * 256 + ((c mod 256) XOR b)"
proof -
  from assms have d: "drop_bit 8 b = 0" and t: "take_bit 8 b = b"
    by (simp_all add: drop_bit_eq_div take_bit_nat_eq_self)
  have e1: "drop_bit 8 (c XOR b) = drop_bit 8 c"
    by (simp add: drop_bit_xor d)
  have e2: "take_bit 8 (c XOR b) = take_bit 8 c XOR b"
    by (simp add: take_bit_xor t)
  have "c XOR b = push_bit 8 (drop_bit 8 (c XOR b)) + take_bit 8 (c XOR b)"
    by (simp only: bits_ident)
  then have "c XOR b = push_bit 8 (drop_bit 8 c) + (take_bit 8 c XOR b)"
    by (simp only: e1 e2)
  then show ?thesis
    by (simp add: push_bit_eq_mult drop_bit_eq_div take_bit_eq_mod)
qed

subsection \<open>The CRC on words and on numbers\<close>

lemma nat_and_255: "(n::nat) AND 255 = n mod 256"
proof -
  have "(255::nat) = mask 8"
    by (simp add: mask_eq_exp_minus_1)
  then have "n AND 255 = take_bit 8 n"
    by (simp only: take_bit_eq_mask)
  then show ?thesis
    by (simp add: take_bit_eq_mod)
qed

lemma unat_crc_lo:
  fixes crc :: "16 word"
  shows "unat (ucast (crc AND 0xFF) :: byte) = unat crc mod 256"
proof -
  have "unat (ucast (crc AND 0xFF) :: byte) = take_bit 8 (unat (crc AND 0xFF))"
    by (subst unsigned_ucast_eq) simp
  also have "unat (crc AND 0xFF) = unat crc AND 255"
    by (simp add: unsigned_and_eq)
  finally show ?thesis
    by (simp add: nat_and_255 take_bit_eq_mod)
qed

lemma unat_crc_hi:
  fixes crc :: "16 word"
  shows "unat (ucast (drop_bit 8 crc AND 0xFF) :: byte) = unat crc div 256"
proof -
  have b: "unat crc < 65536"
    using unsigned_less [of crc] by simp
  have "unat (ucast (drop_bit 8 crc AND 0xFF) :: byte) = take_bit 8 (unat (drop_bit 8 crc AND 0xFF))"
    by (subst unsigned_ucast_eq) simp
  also have "unat (drop_bit 8 crc AND 0xFF) = unat (drop_bit 8 crc) AND 255"
    by (simp add: unsigned_and_eq)
  also have "unat (drop_bit 8 crc) = unat crc div 256"
    by (simp add: drop_bit_eq_div unat_div)
  finally have "unat (ucast (drop_bit 8 crc AND 0xFF) :: byte) = (unat crc div 256) mod 256"
    by (simp add: nat_and_255 take_bit_eq_mod)
  with b show ?thesis
    by simp
qed

lemma unat_ucast_byte: "unat (ucast (b :: byte) :: 16 word) = unat b"
proof -
  have "unat b < 256"
    using unsigned_less [of b] by simp
  then have "unat b < 2 ^ 16"
    by simp
  then show ?thesis
    by (simp add: unsigned_ucast_eq take_bit_nat_eq_self)
qed

lemma unat_crc_shift:
  fixes crc :: "16 word"
  shows "unat (if crc AND 1 \<noteq> 0 then drop_bit 1 crc XOR 0xA001 else drop_bit 1 crc)
         = crc16_shift (unat crc)"
proof -
  have o: "(crc AND 1 \<noteq> 0) = odd (unat crc)"
    by (metis (no_types, lifting) and_one_eq even_iff_mod_2_eq_zero
        odd_iff_mod_2_eq_one unsigned_0 unsigned_1 unsigned_and_eq)
  have d: "unat (drop_bit (Suc 0) crc) = unat crc div 2"
    by (simp add: drop_bit_eq_div unat_div)
  have x: "unat (drop_bit (Suc 0) crc XOR 0xA001) = (unat crc div 2) XOR 0xA001"
    by (simp add: unsigned_xor_eq d)
  show ?thesis
    by (simp add: crc16_shift_def o d x)
qed

lemma unat_crcBits: "unat (crcBits n crc) = (crc16_shift ^^ n) (unat crc)"
proof (induction n arbitrary: crc)
  case 0
  show ?case by simp
next
  case (Suc n)
  have "unat (crcBits (Suc n) crc) =
        (crc16_shift ^^ n) (unat (if crc AND 1 \<noteq> 0 then drop_bit 1 crc XOR 0xA001 else drop_bit 1 crc))"
    by (simp only: crcBits.simps Suc.IH)
  also have "\<dots> = (crc16_shift ^^ n) (crc16_shift (unat crc))"
    by (simp only: unat_crc_shift)
  finally show ?case
    by (simp add: funpow_swap1)
qed

lemma unat_xor_byte:
  fixes crc :: "16 word" and b :: byte
  shows "unat (crc XOR ucast b) = (unat crc div 256) * 256 + ((unat crc mod 256) XOR unat b)"
proof -
  have "unat b < 256"
    using unsigned_less [of b] by simp
  then have "unat crc XOR unat b = (unat crc div 256) * 256 + ((unat crc mod 256) XOR unat b)"
    by (rule xor_low_byte)
  then show ?thesis
    by (simp add: unsigned_xor_eq unat_ucast_byte)
qed

lemma unat_crcLoop: "unat (crcLoop bs crc) = foldl crc16_byte (unat crc) (map unat bs)"
proof (induction bs arbitrary: crc)
  case Nil
  show ?case by simp
next
  case (Cons b bs)
  have "unat (crcBits 8 (crc XOR ucast b)) = crc16_byte (unat crc) (unat b)"
    by (simp only: unat_crcBits unat_xor_byte crc16_byte_def)
  with Cons.IH [of "crcBits 8 (crc XOR ucast b)"] show ?case
    by simp
qed

lemma unat_calculateModbusCRC:
  "unat (calculateModbusCRC data len) = crc16 (map unat (take len data))"
  by (simp add: calculateModbusCRC_def crc16_def unat_crcLoop)

lemma crc_trailer_storeCRC:
  assumes "length msg = 7"
  shows "crc_trailer (storeCRC msg)"
proof -
  let ?crc = "calculateModbusCRC msg 5"
  have s: "storeCRC msg = (msg[5 := ucast (?crc AND 0xFF)])[6 := ucast (drop_bit 8 ?crc AND 0xFF)]"
    using assms by (simp add: storeCRC_def Let_def)
  have len: "length (storeCRC msg) = 7"
    using assms by (simp add: s)
  have t: "take 5 (storeCRC msg) = take 5 msg"
    by (simp add: s)
  have lo: "storeCRC msg ! 5 = ucast (?crc AND 0xFF)"
    using assms by (simp add: s)
  have hi: "storeCRC msg ! 6 = ucast (drop_bit 8 ?crc AND 0xFF)"
    using assms by (simp add: s)
  have c: "crc16 (map unat (take 5 msg)) = unat ?crc"
    by (simp only: unat_calculateModbusCRC)
  have lo': "unat (storeCRC msg ! 5) = unat ?crc mod 256"
    by (simp only: lo unat_crc_lo)
  have hi': "unat (storeCRC msg ! 6) = unat ?crc div 256"
    by (simp only: hi unat_crc_hi)
  show ?thesis
    unfolding crc_trailer_def Let_def len
    by (simp add: t lo' hi' c)
qed

lemma wakeup_crc: "calculateModbusCRC [0xFF, 0x43, 0x06, 0x06] 4 = 0x4642"
  by code_simp

lemma crc_trailer_wakeup: "crc_trailer [0xFF, 0x43, 0x06, 0x06, 0x42, 0x46]"
proof -
  have "crc16 (map unat [0xFF, 0x43, 0x06, 0x06 :: byte]) = unat (0x4642 :: 16 word)"
    using unat_calculateModbusCRC [of "[0xFF, 0x43, 0x06, 0x06]" 4] by (simp only: wakeup_crc) simp
  then show ?thesis
    by (simp add: crc_trailer_def)
qed

text \<open>C4. \<^verbatim>\<open>calculateModbusCRC\<close> computes the MODBUS CRC-16 as the specification words it
  (seed \<open>0xFFFF\<close>; each byte XORed into the low byte of the running value, then eight
  rounds of shift right with a conditional XOR of \<open>0xA001\<close>); the result is a function of
  the input bytes alone; and every frame the engine writes (the discovery poll, the
  data request, and each half of the wake-up sequence) ends with the CRC of the
  bytes before it, low byte first.\<close>

theorem crc16_modbus_and_frame_trailers:
  "unat (calculateModbusCRC data (length data)) = crc16 (map unat data)
   \<and> crc_trailer (pollMsg batteryAddr)
   \<and> crc_trailer (dataRequest batteryIndex)
   \<and> initSeq = take 6 initSeq @ take 6 initSeq
   \<and> crc_trailer (take 6 initSeq)"
proof -
  have "unat (calculateModbusCRC data (length data)) = crc16 (map unat data)"
    by (simp add: unat_calculateModbusCRC)
  moreover have "crc_trailer (pollMsg batteryAddr)"
    unfolding pollMsg_def by (rule crc_trailer_storeCRC) simp
  moreover have "crc_trailer (dataRequest batteryIndex)"
    unfolding dataRequest_def by (rule crc_trailer_storeCRC) simp
  moreover have "initSeq = take 6 initSeq @ take 6 initSeq"
    by (simp add: initSeq_def)
  moreover have "crc_trailer (take 6 initSeq)"
    using crc_trailer_wakeup by (simp add: initSeq_def)
  ultimately show ?thesis
    by simp
qed

subsection \<open>The frame layout as the specification tables it\<close>

lemma uint_shl8_or_u16le: "uint (shl8_or (data ! Suc off) (data ! off)) = u16le data off"
  by (simp add: uint_shl8_or u16le_def)

lemma sint_shl8_or_s16le: "sint (shl8_or (data ! Suc off) (data ! off)) = s16le data off"
  by (simp add: sint16_uint s16le_def Let_def uint_shl8_or_u16le)

lemma sint_s8: "sint (b :: byte) = s8 b"
  by (simp add: sint8_uint s8_def)

subsection \<open>What the cell loop writes\<close>

text \<open>The loops are unfolded one round at a time, by hand.\<close>

declare cellLoop.simps [simp del] idLoop.simps [simp del] testCells.simps [simp del]
  testLoop.simps [simp del] drain.simps [simp del] readAvailable.simps [simp del]
  readLoop.simps [simp del] pollLoop.simps [simp del] clearLoop.simps [simp del]
  scanLoop.simps [simp del]

lemma cellLoop_only_cells:
  "cellLoop data i battery = battery\<lparr>cellVoltages := cellVoltages (cellLoop data i battery)\<rparr>"
proof (induction data i battery rule: cellLoop.induct)
  case (1 data i battery)
  show ?case
  proof (cases "i < 6 \<and> 20 + i * 2 + 1 < length data")
    case True
    let ?b = "battery\<lparr>cellVoltages := (cellVoltages battery)
                (i := real_of_int (uint (shl8_or (data ! (21 + i * 2)) (data ! (20 + i * 2)))) * 0.001)\<rparr>"
    from True have u: "cellLoop data i battery = cellLoop data (Suc i) ?b"
      by (subst cellLoop.simps) (simp add: Let_def)
    from 1 [OF True refl] have "cellLoop data (Suc i) ?b
        = ?b\<lparr>cellVoltages := cellVoltages (cellLoop data (Suc i) ?b)\<rparr>" .
    then have "cellLoop data (Suc i) ?b
        = battery\<lparr>cellVoltages := cellVoltages (cellLoop data (Suc i) ?b)\<rparr>"
      by simp
    with u show ?thesis by simp
  next
    case False
    then have "cellLoop data i battery = battery"
      by (subst cellLoop.simps) auto
    then show ?thesis by simp
  qed
qed

lemma cellLoop_cells:
  "cellVoltages (cellLoop data i battery) c =
     (if i \<le> c \<and> c < 6 \<and> 21 + 2 * c < length data
      then real_of_int (u16le data (20 + 2 * c)) * 0.001
      else cellVoltages battery c)"
proof (induction data i battery rule: cellLoop.induct)
  case (1 data i battery)
  show ?case
  proof (cases "i < 6 \<and> 20 + i * 2 + 1 < length data")
    case True
    let ?v = "real_of_int (uint (shl8_or (data ! (21 + i * 2)) (data ! (20 + i * 2)))) * 0.001"
    let ?b = "battery\<lparr>cellVoltages := (cellVoltages battery)(i := ?v)\<rparr>"
    have v: "?v = real_of_int (u16le data (20 + 2 * i)) * 0.001"
      using uint_shl8_or_u16le [of data "20 + 2 * i"] by (simp add: mult.commute)
    from True have u: "cellLoop data i battery = cellLoop data (Suc i) ?b"
      by (subst cellLoop.simps) (simp add: Let_def)
    note t = True
    from 1 [OF True refl] have ih: "cellVoltages (cellLoop data (Suc i) ?b) c =
        (if Suc i \<le> c \<and> c < 6 \<and> 21 + 2 * c < length data
         then real_of_int (u16le data (20 + 2 * c)) * 0.001
         else cellVoltages ?b c)" .
    show ?thesis
    proof (cases "c = i")
      case True
      with t u ih v show ?thesis
        by simp
    next
      case False
      with t u ih show ?thesis
        by auto
    qed
  next
    case False
    then have u: "cellLoop data i battery = battery"
      by (subst cellLoop.simps) auto
    from False have "\<not> (i \<le> c \<and> c < 6 \<and> 21 + 2 * c < length data)"
      by auto
    with u show ?thesis by auto
  qed
qed

subsection \<open>What the decoder writes\<close>

lemma decodeFrame_fields:
  assumes "20 \<le> length data"
  shows "voltage (decodeFrame data w b) = real_of_int (u16le data 10) * 0.01"
    and "current (decodeFrame data w b) = real_of_int (s16le data 12) * 0.1"
    and "soc (decodeFrame data w b) = uint (data ! 15)"
    and "temperature (decodeFrame data w b) = real_of_int (s8 (data ! 16))"
    and "power_w (decodeFrame data w b)
           = voltage (decodeFrame data w b) * \<bar>current (decodeFrame data w b)\<bar>"
    and "valid (decodeFrame data w b)"
    and "lastUpdate (decodeFrame data w b) = millis w"
    and "cycles (decodeFrame data w b) = cycles b"
    and "batteryID (decodeFrame data w b) = batteryID b"
proof -
  have v: "(unsigned (shl8_or (data ! 11) (data ! 10)) :: real) = real_of_int (u16le data 10)"
    using arg_cong [OF uint_shl8_or_u16le, of real_of_int data 10] by simp
  have c: "(signed (shl8_or (data ! 13) (data ! 12)) :: real) = real_of_int (s16le data 12)"
    using arg_cong [OF sint_shl8_or_s16le, of real_of_int data 12] by simp
  have t: "(signed (data ! 16) :: real) = real_of_int (s8 (data ! 16))"
    using arg_cong [OF sint_s8, of real_of_int "data ! 16"] by simp
  note cl = cellLoop_only_cells [of data 0]
  show "voltage (decodeFrame data w b) = real_of_int (u16le data 10) * 0.01"
    using assms by (simp add: decodeFrame_def Let_def v) (subst cl, simp)+
  show "current (decodeFrame data w b) = real_of_int (s16le data 12) * 0.1"
    using assms by (simp add: decodeFrame_def Let_def c) (subst cl, simp)+
  show "soc (decodeFrame data w b) = uint (data ! 15)"
    using assms by (simp add: decodeFrame_def Let_def) (subst cl, simp)+
  show "temperature (decodeFrame data w b) = real_of_int (s8 (data ! 16))"
    using assms by (simp add: decodeFrame_def Let_def t) (subst cl, simp)+
  show "power_w (decodeFrame data w b)
           = voltage (decodeFrame data w b) * \<bar>current (decodeFrame data w b)\<bar>"
    by (simp add: decodeFrame_def Let_def)
  show "valid (decodeFrame data w b)"
    by (simp add: decodeFrame_def Let_def)
  show "lastUpdate (decodeFrame data w b) = millis w"
    by (simp add: decodeFrame_def Let_def)
  show "cycles (decodeFrame data w b) = cycles b"
    using assms by (simp add: decodeFrame_def Let_def) (subst cl, simp)+
  show "batteryID (decodeFrame data w b) = batteryID b"
    using assms by (simp add: decodeFrame_def Let_def) (subst cl, simp)+
qed

lemma decodeFrame_cells:
  assumes "20 \<le> length data"
  shows "cellVoltages (decodeFrame data w b) c =
     (if 30 < length data \<and> c < 6 \<and> 21 + 2 * c < length data
      then real_of_int (u16le data (20 + 2 * c)) * 0.001
      else cellVoltages b c)"
proof (cases "30 < length data")
  case True
  then show ?thesis
    using assms by (simp add: decodeFrame_def Let_def cellLoop_cells)
next
  case False
  then show ?thesis
    using assms by (simp add: decodeFrame_def Let_def)
qed

lemma decodeFrame_current2:
  assumes "20 \<le> length data"
  shows "current2 (decodeFrame data w b) =
     (if 35 < length data then real_of_int (s16le data 34) * 0.1 else current2 b)"
proof -
  have c: "(signed (shl8_or (data ! 35) (data ! 34)) :: real) = real_of_int (s16le data 34)"
    using arg_cong [OF sint_shl8_or_s16le, of real_of_int data 34] by simp
  note cl = cellLoop_only_cells [of data 0]
  show ?thesis
    using assms by (simp add: decodeFrame_def Let_def c) (subst cl, simp)+
qed

lemma parse_success:
  assumes "20 \<le> length data" and "data ! 0 = 0xFF"
    and "0 \<le> batteryIndex" and "batteryIndex < MAX_BATTERIES"
  shows "parseValenceBatteryData data batteryIndex w s =
     Some (True, s\<lparr>batteries := (batteries s)
        (nat batteryIndex := decodeFrame data w (batteries s (nat batteryIndex)))\<rparr>)"
  using assms by (simp add: parseValenceBatteryData_def Let_def)

lemma parse_True_D:
  assumes "parseValenceBatteryData data batteryIndex w s = Some (True, s')"
  shows "20 \<le> length data \<and> data ! 0 = 0xFF \<and> 0 \<le> batteryIndex \<and> batteryIndex < MAX_BATTERIES"
  using assms by (auto simp: parseValenceBatteryData_def Let_def split: if_splits)

subsection \<open>Claims about the frame decoder\<close>

text \<open>C1. For every buffer of at least 20 bytes whose first byte is \<open>0xFF\<close> and every slot
  index in range (0 to 3), the decoder returns success, and in the slot the voltage is the
  unsigned little-endian 16-bit value at offsets 10-11 times 0.01, the current the signed
  little-endian 16-bit value at offsets 12-13 times 0.1, the state of charge the byte at
  offset 15, the temperature the signed byte at offset 16, the power the voltage times the
  absolute value of the current, the slot is valid and its timestamp is the current
  \<^verbatim>\<open>millis()\<close>. Nothing but that slot changes.\<close>

theorem decoder_success_fields:
  assumes "20 \<le> length data" and "data ! 0 = 0xFF"
    and "0 \<le> batteryIndex" and "batteryIndex < MAX_BATTERIES"
  shows "\<exists>s'. parseValenceBatteryData data batteryIndex w s = Some (True, s')
      \<and> voltage (batteries s' (nat batteryIndex)) = real_of_int (u16le data 10) * 0.01
      \<and> current (batteries s' (nat batteryIndex)) = real_of_int (s16le data 12) * 0.1
      \<and> soc (batteries s' (nat batteryIndex)) = uint (data ! 15)
      \<and> temperature (batteries s' (nat batteryIndex)) = real_of_int (s8 (data ! 16))
      \<and> power_w (batteries s' (nat batteryIndex))
          = voltage (batteries s' (nat batteryIndex)) * \<bar>current (batteries s' (nat batteryIndex))\<bar>
      \<and> valid (batteries s' (nat batteryIndex))
      \<and> lastUpdate (batteries s' (nat batteryIndex)) = millis w
      \<and> s' = s\<lparr>batteries := (batteries s)(nat batteryIndex := batteries s' (nat batteryIndex))\<rparr>"
proof -
  let ?b = "decodeFrame data w (batteries s (nat batteryIndex))"
  let ?s = "s\<lparr>batteries := (batteries s)(nat batteryIndex := ?b)\<rparr>"
  have p: "parseValenceBatteryData data batteryIndex w s = Some (True, ?s)"
    using assms by (rule parse_success)
  have b: "batteries ?s (nat batteryIndex) = ?b"
    by simp
  note f = decodeFrame_fields [OF assms(1), of w "batteries s (nat batteryIndex)"]
  show ?thesis
  proof (intro exI conjI)
    show "parseValenceBatteryData data batteryIndex w s = Some (True, ?s)"
      by (rule p)
    show "voltage (batteries ?s (nat batteryIndex)) = real_of_int (u16le data 10) * 0.01"
      by (simp only: b f)
    show "current (batteries ?s (nat batteryIndex)) = real_of_int (s16le data 12) * 0.1"
      by (simp only: b f)
    show "soc (batteries ?s (nat batteryIndex)) = uint (data ! 15)"
      by (simp only: b f)
    show "temperature (batteries ?s (nat batteryIndex)) = real_of_int (s8 (data ! 16))"
      by (simp only: b f)
    show "power_w (batteries ?s (nat batteryIndex))
          = voltage (batteries ?s (nat batteryIndex)) * \<bar>current (batteries ?s (nat batteryIndex))\<bar>"
      unfolding b by (rule f)
    show "valid (batteries ?s (nat batteryIndex))"
      unfolding b by (rule f)
    show "lastUpdate (batteries ?s (nat batteryIndex)) = millis w"
      by (simp only: b f)
    show "?s = s\<lparr>batteries := (batteries s)(nat batteryIndex := batteries ?s (nat batteryIndex))\<rparr>"
      by simp
  qed
qed

theorem decoder_success_fields_witness:
  "\<exists>s'. parseValenceBatteryData frame20 0 silent_world boot_engine = Some (True, s')
      \<and> voltage (batteries s' 0) = 50
      \<and> current (batteries s' 0) = -8
      \<and> soc (batteries s' 0) = 100
      \<and> temperature (batteries s' 0) = -10
      \<and> power_w (batteries s' 0) = 400
      \<and> valid (batteries s' 0)
      \<and> lastUpdate (batteries s' 0) = 0"
proof -
  have h: "20 \<le> length frame20" "frame20 ! 0 = 0xFF" "(0::int) \<le> 0" "0 < MAX_BATTERIES"
    by (simp_all add: frame20_def MAX_BATTERIES_def)
  have v: "u16le frame20 10 = 5000" and c: "s16le frame20 12 = -80"
    and q: "uint (frame20 ! 15) = 100" and t: "s8 (frame20 ! 16) = -10"
    by (simp_all add: u16le_def s16le_def s8_def frame20_def)
  have m: "millis silent_world = 0"
    by (simp add: millis_def silent_world_def)
  from decoder_success_fields [OF h, of silent_world boot_engine]
  obtain s' where "parseValenceBatteryData frame20 0 silent_world boot_engine = Some (True, s')"
    and "voltage (batteries s' 0) = real_of_int (u16le frame20 10) * 0.01"
    and "current (batteries s' 0) = real_of_int (s16le frame20 12) * 0.1"
    and "soc (batteries s' 0) = uint (frame20 ! 15)"
    and "temperature (batteries s' 0) = real_of_int (s8 (frame20 ! 16))"
    and "power_w (batteries s' 0) = voltage (batteries s' 0) * \<bar>current (batteries s' 0)\<bar>"
    and "valid (batteries s' 0)"
    and "lastUpdate (batteries s' 0) = millis silent_world"
    by auto
  then show ?thesis
    by (intro exI [of _ s']) (simp add: v c q t m)
qed

text \<open>C2, as stated: for every buffer and every slot index, the decoder returns failure
  and leaves the registry as it was whenever the slot index is out of range. The guards
  have no lower bound on the index: with the well-formed 20-byte frame and the index -1
  the source passes both guards and writes below \<^verbatim>\<open>batteries\<close>, which is not the
  result "failure, nothing changed". No caller passes a negative index.\<close>

theorem decoder_negative_index_counterexample:
  "\<not> (0 \<le> (- 1 :: int) \<and> (- 1 :: int) < MAX_BATTERIES)
   \<and> parseValenceBatteryData frame20 (- 1) silent_world boot_engine = None
   \<and> parseValenceBatteryData frame20 (- 1) silent_world boot_engine \<noteq> Some (False, boot_engine)"
  by (simp add: parseValenceBatteryData_def frame20_def MAX_BATTERIES_def)

text \<open>C2, amended. For every buffer and every slot index, the decoder returns failure and
  leaves the engine state as it was whenever the buffer is shorter than 20 bytes, the slot
  index is at or above the capacity of 4, or the leading byte is not \<open>0xFF\<close>.\<close>

theorem decoder_rejects_unmutated:
  assumes "int (length data) < 20 \<or> MAX_BATTERIES \<le> batteryIndex \<or> data ! 0 \<noteq> 0xFF"
  shows "parseValenceBatteryData data batteryIndex w s = Some (False, s)"
  using assms by (auto simp: parseValenceBatteryData_def)

theorem decoder_rejects_unmutated_witness:
  "parseValenceBatteryData (take 19 frame20) 0 silent_world boot_engine = Some (False, boot_engine)
   \<and> parseValenceBatteryData frame20 4 silent_world boot_engine = Some (False, boot_engine)
   \<and> parseValenceBatteryData (0xFE # tl frame20) 0 silent_world boot_engine = Some (False, boot_engine)"
proof (intro conjI)
  have "int (length (take 19 frame20)) < 20"
    by (simp add: frame20_def)
  then show "parseValenceBatteryData (take 19 frame20) 0 silent_world boot_engine
             = Some (False, boot_engine)"
    using decoder_rejects_unmutated [of "take 19 frame20" 0 silent_world boot_engine] by blast
next
  have "MAX_BATTERIES \<le> 4"
    by (simp add: MAX_BATTERIES_def)
  then show "parseValenceBatteryData frame20 4 silent_world boot_engine = Some (False, boot_engine)"
    using decoder_rejects_unmutated [of frame20 4 silent_world boot_engine] by blast
next
  have "(0xFE # tl frame20) ! 0 \<noteq> (0xFF :: byte)"
    by simp
  then show "parseValenceBatteryData (0xFE # tl frame20) 0 silent_world boot_engine
             = Some (False, boot_engine)"
    using decoder_rejects_unmutated [of "0xFE # tl frame20" 0 silent_world boot_engine] by blast
qed

text \<open>C3, as stated: whenever the decoder succeeds on a buffer longer than 30 bytes, all
  six cell voltages are populated from the values at offsets \<open>20 + 2i\<close>. On the 31-byte
  frame the decoder succeeds and leaves the sixth cell voltage at its previous value,
  0, which no value read at offsets 30-31 with the byte 1 at offset 30 could give.\<close>

theorem cell_voltages_length_31_counterexample:
  "parseValenceBatteryData frame31 0 silent_world boot_engine
     = Some (True, boot_engine\<lparr>batteries := (batteries boot_engine)
          (0 := decodeFrame frame31 silent_world boot_slot)\<rparr>)
   \<and> 30 < length frame31
   \<and> cellVoltages (decodeFrame frame31 silent_world boot_slot) 5 = cellVoltages boot_slot 5
   \<and> cellVoltages (decodeFrame frame31 silent_world boot_slot) 5
       \<noteq> real_of_int (u16le frame31 30) * 0.001"
proof -
  have len: "length frame31 = 31"
    by (simp add: frame31_def frame20_def)
  have h: "20 \<le> length frame31" "frame31 ! 0 = 0xFF" "(0::int) \<le> 0" "0 < MAX_BATTERIES"
    by (simp_all add: len MAX_BATTERIES_def) (simp add: frame31_def frame20_def)
  have p: "parseValenceBatteryData frame31 0 silent_world boot_engine
     = Some (True, boot_engine\<lparr>batteries := (batteries boot_engine)
          (0 := decodeFrame frame31 silent_world boot_slot)\<rparr>)"
    using parse_success [OF h, of silent_world boot_engine] by (simp add: boot_engine_def)
  have k: "cellVoltages (decodeFrame frame31 silent_world boot_slot) 5 = cellVoltages boot_slot 5"
    using decodeFrame_cells [OF h(1), of silent_world boot_slot 5] by (simp add: len)
  have z: "cellVoltages boot_slot 5 = 0"
    by (simp add: boot_slot_def)
  have "frame31 ! 30 = 1"
    by (simp add: frame31_def frame20_def)
  then have "1 \<le> u16le frame31 30"
    by (simp add: u16le_def)
  then have "real_of_int (u16le frame31 30) * 0.001 \<noteq> 0"
    by simp
  with p len k z show ?thesis
    by simp
qed

text \<open>C3, amended. When the decoder succeeds, each of the cell voltages 0 to 4 is the
  unsigned little-endian 16-bit value at offset \<open>20 + 2i\<close> times 0.001 if the buffer is
  longer than 30 bytes and keeps its previous value otherwise; the cell voltage 5 is
  the value at offsets 30-31 times 0.001 if the buffer is longer than 31 bytes and keeps its
  previous value otherwise; the secondary current is the signed little-endian 16-bit value
  at offsets 34-35 times 0.1 if the buffer is longer than 35 bytes and keeps its previous
  value otherwise.\<close>

theorem decoder_guarded_fields:
  assumes "parseValenceBatteryData data batteryIndex w s = Some (True, s')"
  shows "(\<forall>c<5. cellVoltages (batteries s' (nat batteryIndex)) c =
            (if 30 < length data then real_of_int (u16le data (20 + 2 * c)) * 0.001
             else cellVoltages (batteries s (nat batteryIndex)) c))
      \<and> cellVoltages (batteries s' (nat batteryIndex)) 5 =
            (if 31 < length data then real_of_int (u16le data 30) * 0.001
             else cellVoltages (batteries s (nat batteryIndex)) 5)
      \<and> current2 (batteries s' (nat batteryIndex)) =
            (if 35 < length data then real_of_int (s16le data 34) * 0.1
             else current2 (batteries s (nat batteryIndex)))"
proof -
  from parse_True_D [OF assms] have g: "20 \<le> length data" "data ! 0 = 0xFF"
    "0 \<le> batteryIndex" "batteryIndex < MAX_BATTERIES"
    by simp_all
  let ?b = "batteries s (nat batteryIndex)"
  from assms parse_success [OF g, of w s]
  have s': "s' = s\<lparr>batteries := (batteries s)(nat batteryIndex := decodeFrame data w ?b)\<rparr>"
    by simp
  then have b': "batteries s' (nat batteryIndex) = decodeFrame data w ?b"
    by simp
  have "cellVoltages (decodeFrame data w ?b) c =
          (if 30 < length data then real_of_int (u16le data (20 + 2 * c)) * 0.001
           else cellVoltages ?b c)" if "c < 5" for c
    using that decodeFrame_cells [OF g(1), of w ?b c] by auto
  moreover have "cellVoltages (decodeFrame data w ?b) 5 =
          (if 31 < length data then real_of_int (u16le data 30) * 0.001 else cellVoltages ?b 5)"
    using decodeFrame_cells [OF g(1), of w ?b 5] by auto
  moreover note decodeFrame_current2 [OF g(1), of w ?b]
  ultimately show ?thesis
    unfolding b' by blast
qed

theorem decoder_guarded_fields_witness:
  "\<exists>s'. parseValenceBatteryData frame36 2 silent_world boot_engine = Some (True, s')
      \<and> cellVoltages (batteries s' 2) 0 = 1
      \<and> cellVoltages (batteries s' 2) 4 = 1.004
      \<and> cellVoltages (batteries s' 2) 5 = 1.005
      \<and> current2 (batteries s' 2) = -7.9"
proof -
  have len: "length frame36 = 36"
    by (simp add: frame36_def frame20_def)
  have h: "20 \<le> length frame36" "frame36 ! 0 = 0xFF" "(0::int) \<le> 2" "2 < MAX_BATTERIES"
    by (simp_all add: len MAX_BATTERIES_def) (simp add: frame36_def frame20_def)
  let ?s = "boot_engine\<lparr>batteries := (batteries boot_engine)
              (nat 2 := decodeFrame frame36 silent_world (batteries boot_engine (nat 2)))\<rparr>"
  have p: "parseValenceBatteryData frame36 2 silent_world boot_engine = Some (True, ?s)"
    by (rule parse_success [OF h])
  have c0: "u16le frame36 20 = 1000" and c4: "u16le frame36 28 = 1004"
    and c5: "u16le frame36 30 = 1005" and i2: "s16le frame36 34 = -79"
    by (simp_all add: u16le_def s16le_def frame36_def frame20_def)
  from decoder_guarded_fields [OF p]
  have "cellVoltages (batteries ?s (nat 2)) 0 = real_of_int (u16le frame36 (20 + 2 * 0)) * 0.001"
    and "cellVoltages (batteries ?s (nat 2)) 4 = real_of_int (u16le frame36 (20 + 2 * 4)) * 0.001"
    and "cellVoltages (batteries ?s (nat 2)) 5 = real_of_int (u16le frame36 30) * 0.001"
    and "current2 (batteries ?s (nat 2)) = real_of_int (s16le frame36 34) * 0.1"
    by (simp_all add: len)
  then have "cellVoltages (batteries ?s 2) 0 = 1"
    and "cellVoltages (batteries ?s 2) 4 = 1.004"
    and "cellVoltages (batteries ?s 2) 5 = 1.005"
    and "current2 (batteries ?s 2) = -7.9"
    by (simp_all add: c0 c4 c5 i2)
  with p show ?thesis
    by blast
qed

subsection \<open>Claims about the identifier parser\<close>

lemma idLoop_filter:
  "i \<le> length data - 2 \<Longrightarrow>
   idLoop data i ident =
     ident @ map (\<lambda>b. char_of (unat b)) (filter printable (drop i (take (length data - 2) data)))"
proof (induction data i ident rule: idLoop.induct)
  case (1 data i ident)
  show ?case
  proof (cases "int i < int (length data) - 2")
    case True
    then have lt: "i < length data - 2"
      by simp
    then have d: "drop i (take (length data - 2) data)
                  = data ! i # drop (Suc i) (take (length data - 2) data)"
      by (simp add: Cons_nth_drop_Suc [symmetric])
    from lt have le: "Suc i \<le> length data - 2"
      by simp
    let ?ident = "if printable (data ! i) then ident @ [char_of (unat (data ! i))] else ident"
    from True have u: "idLoop data i ident = idLoop data (Suc i) ?ident"
      by (subst idLoop.simps) simp
    from "1.IH" [OF True le] have "idLoop data (Suc i) ?ident = ?ident @
        map (\<lambda>b. char_of (unat b)) (filter printable (drop (Suc i) (take (length data - 2) data)))" .
    with u d show ?thesis
      by simp
  next
    case False
    with "1.prems" have e: "i = length data - 2"
      by simp
    from False have "idLoop data i ident = ident"
      by (subst idLoop.simps) simp
    with e show ?thesis
      by simp
  qed
qed

text \<open>C8, as stated: for every discovery response of at least 10 bytes that starts with
  \<open>0xFF 0x70\<close>, the identifier is the maximal run of printable characters from offset 3 to
  2 bytes before the end. The 10-byte response has the run \<open>ABCDE\<close> and the parser returns
  the empty string; the 15-byte response has the run \<open>AB\<close> and the parser returns
  \<open>ABCDEFGHI\<close>.\<close>

theorem identifier_run_counterexample:
  "10 \<le> length response10 \<and> response10 ! 0 = 0xFF \<and> response10 ! 1 = 0x70
   \<and> map (\<lambda>b. char_of (unat b)) (printable_run response10) = ''ABCDE''
   \<and> parseBatteryID response10 = []
   \<and> 10 \<le> length response15 \<and> response15 ! 0 = 0xFF \<and> response15 ! 1 = 0x70
   \<and> map (\<lambda>b. char_of (unat b)) (printable_run response15) = ''AB''
   \<and> parseBatteryID response15 = ''ABCDEFGHI''"
proof -
  have a: "map (\<lambda>b. char_of (unat b)) (printable_run response10) = ''ABCDE''"
    by code_simp
  have b: "parseBatteryID response10 = []"
    by (simp add: parseBatteryID_def response10_def)
  have c: "map (\<lambda>b. char_of (unat b)) (printable_run response15) = ''AB''"
    by code_simp
  have "parseBatteryID response15 = idLoop response15 3 []"
    by (simp add: parseBatteryID_def response15_def)
  also have "\<dots> = map (\<lambda>b. char_of (unat b))
      (filter printable (drop 3 (take (length response15 - 2) response15)))"
    by (subst idLoop_filter) (simp_all add: response15_def)
  also have "\<dots> = ''ABCDEFGHI''"
    by code_simp
  finally have d: "parseBatteryID response15 = ''ABCDEFGHI''" .
  show ?thesis
    using a b c d by (simp add: response10_def response15_def)
qed

text \<open>C8, amended. For every buffer of at least 15 bytes, the identifier is the sequence of
  all printable characters (\<open>0x20\<close> to \<open>0x7E\<close>) at the offsets from 3 to 3 bytes before the
  end, in their order, whatever lies between them; for a shorter buffer it is empty.\<close>

theorem identifier_is_printable_subsequence:
  "parseBatteryID data =
     (if length data < 15 then []
      else map (\<lambda>b. char_of (unat b)) (filter printable (drop 3 (take (length data - 2) data))))"
proof (cases "length data < 15")
  case True
  then show ?thesis
    by (simp add: parseBatteryID_def)
next
  case False
  then have "3 \<le> length data - 2"
    by simp
  from idLoop_filter [OF this, of "[]"] False show ?thesis
    by (simp add: parseBatteryID_def)
qed

theorem identifier_is_printable_subsequence_witness: "parseBatteryID response17 = ''CBB112810318''"
proof -
  have "parseBatteryID response17 = map (\<lambda>b. char_of (unat b))
      (filter printable (drop 3 (take (length response17 - 2) response17)))"
    by (subst identifier_is_printable_subsequence) (simp add: response17_def)
  also have "\<dots> = ''CBB112810318''"
    by code_simp
  finally show ?thesis .
qed

subsection \<open>What the test data generator writes\<close>

lemma testSlot_valid: "valid (batteries (fst (testSlot i s w)) i)"
  by (simp add: testSlot_def Let_def split_beta)

lemma testSlot_other: "j \<noteq> i \<Longrightarrow> batteries (fst (testSlot i s w)) j = batteries s j"
  by (simp add: testSlot_def Let_def split_beta)

lemma testLoop_slots:
  "activeBatteryCount s = 4 \<Longrightarrow>
   activeBatteryCount (fst (testLoop i s w)) = 4
   \<and> (\<forall>j. i \<le> j \<and> j < 4 \<longrightarrow> valid (batteries (fst (testLoop i s w)) j))
   \<and> (\<forall>j. j < i \<longrightarrow> batteries (fst (testLoop i s w)) j = batteries s j)"
proof (induction i s w rule: testLoop.induct)
  case (1 i s w)
  show ?case
  proof (cases "int i < activeBatteryCount s")
    case True
    obtain s1 w1 where t: "testSlot i s w = (s1, w1)"
      by (cases "testSlot i s w")
    from True t have u: "testLoop i s w = testLoop (Suc i) s1 w1"
      by (subst testLoop.simps) simp
    from t have s1: "s1 = fst (testSlot i s w)"
      by simp
    have a1: "activeBatteryCount s1 = 4"
      using "1.prems" by (simp add: s1 activeBatteryCount_testSlot)
    from "1.IH" [OF True t [symmetric] a1]
    have ih: "activeBatteryCount (fst (testLoop (Suc i) s1 w1)) = 4"
      "\<forall>j. Suc i \<le> j \<and> j < 4 \<longrightarrow> valid (batteries (fst (testLoop (Suc i) s1 w1)) j)"
      "\<forall>j. j < Suc i \<longrightarrow> batteries (fst (testLoop (Suc i) s1 w1)) j = batteries s1 j"
      by simp_all
    have "valid (batteries (fst (testLoop (Suc i) s1 w1)) j)" if "i \<le> j" "j < 4" for j
    proof (cases "j = i")
      case True
      with ih(3) have "batteries (fst (testLoop (Suc i) s1 w1)) j = batteries s1 i"
        by simp
      then show ?thesis
        by (simp add: s1 testSlot_valid)
    next
      case False
      with that ih(2) show ?thesis
        by simp
    qed
    moreover have "batteries (fst (testLoop (Suc i) s1 w1)) j = batteries s j" if "j < i" for j
      using that ih(3) by (simp add: s1 testSlot_other)
    ultimately show ?thesis
      using u ih(1) by simp
  next
    case False
    then have u: "testLoop i s w = (s, w)"
      by (subst testLoop.simps) simp
    from False "1.prems" have "4 \<le> i"
      by simp
    with u "1.prems" show ?thesis
      by auto
  qed
qed

lemma generateTestData_slots:
  "activeBatteryCount (fst (generateTestData s w)) = 4
   \<and> (\<forall>j<4. valid (batteries (fst (generateTestData s w)) j))
   \<and> protocolInitialized (fst (generateTestData s w))"
proof -
  have "activeBatteryCount (s\<lparr>activeBatteryCount := 4\<rparr>) = 4"
    by simp
  from testLoop_slots [OF this, of 0 w] show ?thesis
    by (simp add: generateTestData_def split_beta)
qed

subsection \<open>A bus on which nothing arrives\<close>

lemma available_silent: "rxq w = [] \<Longrightarrow> Serial2_available w = 0"
  by (simp add: Serial2_available_def)

lemma drain_silent: "rxq w = [] \<Longrightarrow> drain w = w"
  by (subst drain.simps) (simp add: available_silent)

lemma readStep_silent: "rxq w = [] \<Longrightarrow> readStep timeout response w = (timeout, response, delay 1 w)"
  by (simp add: readStep_def available_silent)

lemma readLoop_silent: "rxq w = [] \<Longrightarrow> fst (readLoop timeout response w) = response"
proof (induction timeout response w rule: readLoop.induct)
  case (1 timeout response w)
  show ?case
  proof (cases "millis w < timeout \<and> length response < 128")
    case True
    have st: "readStep timeout response w = (timeout, response, delay 1 w)"
      using "1.prems" by (rule readStep_silent)
    from True st have u: "readLoop timeout response w = readLoop timeout response (delay 1 w)"
      by (subst readLoop.simps) simp
    have "rxq (delay 1 w) = []"
      using "1.prems" by (simp add: delay_def)
    from "1.IH" [OF True st [symmetric] refl this] u show ?thesis
      by simp
  next
    case False
    then show ?thesis
      by (subst readLoop.simps) auto
  qed
qed

lemma receiveResponse_silent: "rxq w = [] \<Longrightarrow> fst (receiveResponse batteryIndex w) = []"
  by (simp add: receiveResponse_def Let_def drain_silent readLoop_silent Serial2_write_def)

lemma scanStep_silent:
  "rxq w = [] \<Longrightarrow>
   scanStep batteryAddr foundBatteries s w
     = (foundBatteries, s, delay 100 (delay 200 (Serial2_write (pollMsg (int batteryAddr)) w)))"
  by (simp add: scanStep_def pollAddress_def Let_def available_silent drain_silent
      Serial2_write_def delay_def)

lemma scanLoop_silent:
  "rxq w = [] \<Longrightarrow> fst (scanLoop batteryAddr foundBatteries s w) = foundBatteries"
proof (induction batteryAddr foundBatteries s w rule: scanLoop.induct)
  case (1 batteryAddr foundBatteries s w)
  show ?case
  proof (cases "batteryAddr \<le> 5 \<and> int foundBatteries < MAX_BATTERIES")
    case True
    let ?w = "delay 100 (delay 200 (Serial2_write (pollMsg (int batteryAddr)) w))"
    have st: "scanStep batteryAddr foundBatteries s w = (foundBatteries, s, ?w)"
      using "1.prems" by (rule scanStep_silent)
    from True st have u: "scanLoop batteryAddr foundBatteries s w
                          = scanLoop (Suc batteryAddr) foundBatteries s ?w"
      by (subst scanLoop.simps) simp
    have "rxq ?w = []"
      using "1.prems" by (simp add: delay_def Serial2_write_def)
    from "1.IH" [OF True st [symmetric] refl this] u show ?thesis
      by simp
  next
    case False
    then show ?thesis
      by (subst scanLoop.simps) auto
  qed
qed

lemma discoveryScan_silent: "rxq w = [] \<Longrightarrow> fst (discoveryScan s w) = 0"
  by (simp add: discoveryScan_def Let_def scanLoop_silent delay_def Serial2_write_def)

subsection \<open>Claims about the synthetic fallback and the polling pass\<close>

text \<open>C7. After a discovery pass whose scan finds no battery, the registry has been
  filled by the synthetic data generator: the active count is 4, the four slots are
  valid, and the initialized flag is set.\<close>

theorem synthetic_fallback_after_empty_scan:
  assumes "fst (discoveryScan s w) = 0"
  shows "activeBatteryCount (fst (initializeValenceProtocol s w)) = 4
     \<and> (\<forall>i<4. valid (batteries (fst (initializeValenceProtocol s w)) i))
     \<and> protocolInitialized (fst (initializeValenceProtocol s w))"
proof -
  obtain s1 w1 where d: "discoveryScan s w = (0, s1, w1)"
    using assms by (cases "discoveryScan s w") auto
  then have "fst (initializeValenceProtocol s w)
             = (fst (generateTestData s1 w1))\<lparr>protocolInitialized := True\<rparr>"
    by (simp add: initializeValenceProtocol_def split_beta)
  with generateTestData_slots [of s1 w1] show ?thesis
    by simp
qed

theorem synthetic_fallback_after_empty_scan_witness:
  "fst (discoveryScan boot_engine silent_world) = 0
   \<and> activeBatteryCount (fst (initializeValenceProtocol boot_engine silent_world)) = 4
   \<and> valid (batteries (fst (initializeValenceProtocol boot_engine silent_world)) 0)
   \<and> valid (batteries (fst (initializeValenceProtocol boot_engine silent_world)) 1)
   \<and> valid (batteries (fst (initializeValenceProtocol boot_engine silent_world)) 2)
   \<and> valid (batteries (fst (initializeValenceProtocol boot_engine silent_world)) 3)
   \<and> protocolInitialized (fst (initializeValenceProtocol boot_engine silent_world))"
proof -
  have "rxq silent_world = []"
    by (simp add: silent_world_def)
  then have z: "fst (discoveryScan boot_engine silent_world) = 0"
    by (rule discoveryScan_silent)
  from synthetic_fallback_after_empty_scan [OF z] z show ?thesis
    by simp
qed


text \<open>With no battery active the loop of a polling pass runs no round. The only call of the
  generator outside discovery is in a single request: one that receives fewer than 20 bytes
  while no battery is active fills the registry with test data and reports success.\<close>

lemma single_request_fallback:
  assumes "i < MAX_BATTERIES" and "activeBatteryCount s = 0"
    and "length (fst (receiveResponse i w)) < 20"
  shows "\<exists>s' w'. requestSingleBatteryData i s w = Some (True, s', w')
      \<and> activeBatteryCount s' = 4 \<and> (\<forall>j<4. valid (batteries s' j))"
proof -
  obtain response w1 where r: "receiveResponse i w = (response, w1)"
    by (cases "receiveResponse i w")
  with assms have "requestSingleBatteryData i s w
      = Some (True, fst (generateTestData s w1), snd (generateTestData s w1))"
    by (simp add: requestSingleBatteryData_def split_beta)
  with generateTestData_slots [of s w1] show ?thesis
    by (intro exI [of _ "fst (generateTestData s w1)"] exI [of _ "snd (generateTestData s w1)"])
      simp
qed

text \<open>Whatever the slot and the state, a request that reports failure has changed
  nothing.\<close>

lemma failed_request_unchanged:
  assumes "requestSingleBatteryData i s w = Some (False, s', w')"
  shows "s' = s"
proof (cases "i \<ge> MAX_BATTERIES")
  case True
  with assms show ?thesis
    by (simp add: requestSingleBatteryData_def)
next
  case False
  obtain response w1 where r: "receiveResponse i w = (response, w1)"
    by (cases "receiveResponse i w")
  show ?thesis
  proof (cases "int (length response) \<ge> 20")
    case True
    with assms r False have "parseValenceBatteryData response i w1 s = Some (False, s')"
      by (auto simp: requestSingleBatteryData_def split: option.splits)
    then show ?thesis
      by (auto simp: parseValenceBatteryData_def Let_def split: if_splits)
  next
    case short: False
    with assms r False show ?thesis
      by (auto simp: requestSingleBatteryData_def split_beta split: if_splits)
  qed
qed

text \<open>C6. A polling attempt for an active slot \<open>i\<close> (the pass polls the slots below
  \<^verbatim>\<open>activeBatteryCount\<close>) whose response is shorter than 20 bytes or does not start with
  \<open>0xFF\<close> returns failure and leaves the whole engine state, and so slot \<open>i\<close> with its
  reading, its valid flag and its timestamp, as it was.\<close>

theorem failed_poll_keeps_state:
  assumes "0 \<le> i" and "i < activeBatteryCount s"
    and "receiveResponse i w = (response, w')"
    and "length response < 20 \<or> response ! 0 \<noteq> 0xFF"
  shows "\<exists>w''. requestSingleBatteryData i s w = Some (False, s, w'')"
proof (cases "i \<ge> MAX_BATTERIES")
  case True
  then show ?thesis
    by (simp add: requestSingleBatteryData_def)
next
  case False
  from assms(1,2) have nz: "activeBatteryCount s \<noteq> 0"
    by simp
  show ?thesis
  proof (cases "int (length response) \<ge> 20")
    case True
    with assms(4) have "response ! 0 \<noteq> 0xFF"
      by simp
    then have "parseValenceBatteryData response i w' s = Some (False, s)"
      by (auto simp: parseValenceBatteryData_def)
    with False True assms(3) show ?thesis
      by (simp add: requestSingleBatteryData_def)
  next
    case short: False
    with False assms(3) nz show ?thesis
      by (simp add: requestSingleBatteryData_def)
  qed
qed

theorem failed_poll_keeps_state_witness:
  "valid (batteries polled_engine 0)
   \<and> fst (receiveResponse 0 silent_world) = []
   \<and> (\<exists>w''. requestSingleBatteryData 0 polled_engine silent_world = Some (False, polled_engine, w''))
   \<and> fst (receiveResponse 0 garbled_world) = 0xFE # tl frame20
   \<and> (\<exists>w''. requestSingleBatteryData 0 polled_engine garbled_world = Some (False, polled_engine, w''))"
proof -
  have v: "valid (batteries polled_engine 0)"
    by (simp add: polled_engine_def decodeFrame_fields frame20_def)
  have a: "(0::int) \<le> 0" "0 < activeBatteryCount polled_engine"
    by (simp_all add: polled_engine_def)
  have s: "fst (receiveResponse 0 silent_world) = []"
    by (rule receiveResponse_silent) (simp add: silent_world_def)
  obtain w1 where r1: "receiveResponse 0 silent_world = ([], w1)"
    using s by (cases "receiveResponse 0 silent_world") simp
  have "length ([] :: byte list) < 20 \<or> ([] :: byte list) ! 0 \<noteq> 0xFF"
    by simp
  from failed_poll_keeps_state [OF a r1 this]
  have p1: "\<exists>w''. requestSingleBatteryData 0 polled_engine silent_world
                  = Some (False, polled_engine, w'')" .
  have g: "fst (receiveResponse 0 garbled_world) = 0xFE # tl frame20"
    by code_simp
  obtain w2 where r2: "receiveResponse 0 garbled_world = (0xFE # tl frame20, w2)"
    using g by (cases "receiveResponse 0 garbled_world") simp
  have "length (0xFE # tl frame20) < 20 \<or> (0xFE # tl frame20) ! 0 \<noteq> (0xFF :: byte)"
    by simp
  from failed_poll_keeps_state [OF a r2 this]
  have p2: "\<exists>w''. requestSingleBatteryData 0 polled_engine garbled_world
                  = Some (False, polled_engine, w'')" .
  from v s p1 g p2 show ?thesis
    by blast
qed

subsection \<open>The deadline of the response loop\<close>

text \<open>When a byte is there, the round stores it and sets the deadline to 100 ms from now,
  whatever the deadline was.\<close>

lemma readStep_rearms:
  assumes "Serial2_read w = Some (b, w')" and "Serial2_available w \<noteq> 0"
  shows "readStep timeout response w = (millis w + 100, response @ [b], delay 1 w')"
proof -
  from assms(1) have "clock w' = clock w"
    by (auto simp: Serial2_read_def split: list.splits if_splits)
  then have "millis w' = millis w"
    by (simp add: millis_def)
  with assms show ?thesis
    by (simp add: readStep_def)
qed

text \<open>C9. The deadline in force before the first byte is the start plus 1000 ms. In the
  round that receives the first byte at 5 ms, the deadline becomes 105 ms, which is
  earlier; the loop then ends at 105 ms with one byte, and the byte that arrives at
  300 ms is not read.\<close>

theorem first_byte_shortens_deadline:
  "millis pausing_world + RESPONSE_TIMEOUT = 1000
   \<and> fst (readStep 1000 [] (delay 5 pausing_world)) = 105
   \<and> (105 :: 32 word) < 1000
   \<and> fst (readLoop (millis pausing_world + RESPONSE_TIMEOUT) [] pausing_world) = [0xFF]"
proof -
  have a: "millis pausing_world + RESPONSE_TIMEOUT = 1000"
    by (simp add: millis_def pausing_world_def RESPONSE_TIMEOUT_def)
  have b: "fst (readStep 1000 [] (delay 5 pausing_world)) = 105"
    by code_simp
  have c: "(105 :: 32 word) < 1000"
    by simp
  have d: "fst (readLoop (millis pausing_world + RESPONSE_TIMEOUT) [] pausing_world) = [0xFF]"
    by code_simp
  from a b c d show ?thesis
    by blast
qed

subsection \<open>What a discovery pass hears\<close>

lemma acceptResponse_valid:
  "acceptResponse r f s =
     (if validResponse r then (Suc f, assignSlot f (parseBatteryID r) s) else (f, s))"
  by (auto simp: acceptResponse_def validResponse_def Let_def)

lemma scanStep_heard:
  "scanStep a f s w =
     (if validResponse (heard a w)
      then (Suc f, assignSlot f (parseBatteryID (heard a w)) s, afterPoll a w)
      else (f, s, afterPoll a w))"
proof (cases "pollAddress a w")
  case (Pair r w')
  show ?thesis
  proof (cases r)
    case None
    with Pair have "heard a w = []"
      by (simp add: heard_def)
    then have "\<not> validResponse (heard a w)"
      by (simp add: validResponse_def)
    with Pair None show ?thesis
      by (simp add: scanStep_def afterPoll_def)
  next
    case (Some response)
    with Pair have "heard a w = response"
      by (simp add: heard_def)
    with Pair Some show ?thesis
      by (simp add: scanStep_def afterPoll_def acceptResponse_valid)
  qed
qed

lemma scanLoop_stop:
  "\<not> (a \<le> 5 \<and> f < 4) \<Longrightarrow> scanLoop a f s w = (f, s, w)"
  by (subst scanLoop.simps) (auto simp: MAX_BATTERIES_def)

lemma scanLoop_step:
  "a \<le> 5 \<Longrightarrow> f < 4 \<Longrightarrow>
   scanLoop a f s w =
     (if validResponse (heard a w)
      then scanLoop (Suc a) (Suc f) (assignSlot f (parseBatteryID (heard a w)) s) (afterPoll a w)
      else scanLoop (Suc a) f s (afterPoll a w))"
  by (subst scanLoop.simps) (simp add: MAX_BATTERIES_def scanStep_heard)

lemma tx_drain: "tx (drain w) = tx w"
proof (induction w rule: drain.induct)
  case (1 w)
  show ?case
  proof (cases "Serial2_available w \<noteq> 0")
    case True
    show ?thesis
    proof (cases "Serial2_read w")
      case None
      with True show ?thesis
        by (subst drain.simps) simp
    next
      case (Some p)
      obtain b w' where p: "p = (b, w')"
        by (cases p)
      from Some p have "tx w' = tx w"
        by (auto simp: Serial2_read_def split: list.splits if_splits)
      moreover from True Some p have "drain w = drain w'"
        by (subst drain.simps) simp
      moreover from "1.IH" [OF True Some p [symmetric]] have "tx (drain w') = tx w'" .
      ultimately show ?thesis
        by simp
    qed
  next
    case False
    then show ?thesis
      by (subst drain.simps) simp
  qed
qed

lemma tx_readAvailable: "tx (snd (readAvailable response w)) = tx w"
proof (induction response w rule: readAvailable.induct)
  case (1 response w)
  show ?case
  proof (cases "Serial2_available w \<noteq> 0 \<and> length response < 64")
    case True
    show ?thesis
    proof (cases "Serial2_read w")
      case None
      with True show ?thesis
        by (subst readAvailable.simps) simp
    next
      case (Some p)
      obtain b w' where p: "p = (b, w')"
        by (cases p)
      from Some p have "tx w' = tx w"
        by (auto simp: Serial2_read_def split: list.splits if_splits)
      moreover from True Some p have "readAvailable response w = readAvailable (response @ [b]) w'"
        by (subst readAvailable.simps) simp
      moreover from "1.IH" [OF True Some p [symmetric]]
      have "tx (snd (readAvailable (response @ [b]) w')) = tx w'" .
      ultimately show ?thesis
        by simp
    qed
  next
    case False
    then show ?thesis
      by (subst readAvailable.simps) auto
  qed
qed

lemma tx_afterPoll: "tx (afterPoll a w) = tx w @ [pollMsg (int a)]"
  by (simp add: afterPoll_def pollAddress_def Let_def delay_def tx_drain tx_readAvailable
      Serial2_write_def split_beta)

lemma tx_worldAt: "tx (worldAt w k) = tx w @ [initSeq] @ map (\<lambda>a. pollMsg (int a)) [0..<k]"
  by (induction k) (simp_all add: tx_afterPoll delay_def Serial2_write_def)

lemma validFrom_rec:
  "a < 6 \<Longrightarrow>
   validFrom w a = (if validResponse (seen w a) then a # validFrom w (Suc a) else validFrom w (Suc a))"
  by (simp add: validFrom_def upt_conv_Cons)

lemma validFrom_end: "validFrom w 6 = []"
  by (simp add: validFrom_def)

lemma batteries_assignSlot:
  "batteries (assignSlot f ident s) j
     = (if j = f then (batteries s f)\<lparr>batteryID := ident\<rparr> else batteries s j)"
  by (simp add: assignSlot_def)

lemma discoveredBatteryIDs_assignSlot:
  "discoveredBatteryIDs (assignSlot f ident s) j = (if j = f then ident else discoveredBatteryIDs s j)"
  by (simp add: assignSlot_def)

text \<open>The scan from round \<open>a\<close> with \<open>f\<close> batteries found so far, when the capacity is not
  exceeded: what it counts, what it writes, what it leaves, and where it stops.\<close>

lemma scanLoop_result:
  assumes "a \<le> 6" and "f + length (validFrom w0 a) \<le> 4"
  shows "fst (scanLoop a f s (worldAt w0 a)) = f + length (validFrom w0 a)
    \<and> (\<forall>j<length (validFrom w0 a).
          batteryID (batteries (fst (snd (scanLoop a f s (worldAt w0 a)))) (f + j))
            = parseBatteryID (seen w0 (validFrom w0 a ! j))
          \<and> discoveredBatteryIDs (fst (snd (scanLoop a f s (worldAt w0 a)))) (f + j)
            = parseBatteryID (seen w0 (validFrom w0 a ! j)))
    \<and> (\<forall>j<f. batteries (fst (snd (scanLoop a f s (worldAt w0 a)))) j = batteries s j
          \<and> discoveredBatteryIDs (fst (snd (scanLoop a f s (worldAt w0 a)))) j
            = discoveredBatteryIDs s j)
    \<and> snd (snd (scanLoop a f s (worldAt w0 a)))
        = worldAt w0 (if f + length (validFrom w0 a) < 4 then 6
                      else if validFrom w0 a = [] then a else Suc (last (validFrom w0 a)))"
  using assms
proof (induction n \<equiv> "6 - a" arbitrary: a f s)
  case 0
  then have a: "a = 6"
    by simp
  then have "scanLoop a f s (worldAt w0 a) = (f, s, worldAt w0 a)"
    by (intro scanLoop_stop) simp
  with a show ?case
    by (simp add: validFrom_end)
next
  case (Suc n)
  then have a: "a < 6"
    by simp
  let ?V = "validFrom w0 a" and ?V' = "validFrom w0 (Suc a)"
  show ?case
  proof (cases "f < 4")
    case False
    with Suc.prems have "length ?V = 0" and f4: "f = 4"
      by linarith+
    then have e: "?V = []"
      by simp
    from False have "scanLoop a f s (worldAt w0 a) = (f, s, worldAt w0 a)"
      by (intro scanLoop_stop) simp
    with e f4 show ?thesis
      by simp
  next
    case True
    from a have a5: "a \<le> 5"
      by simp
    have h: "heard a (worldAt w0 a) = seen w0 a"
      by (simp add: seen_def)
    have n: "n = 6 - Suc a" and a6: "Suc a \<le> 6"
      using Suc.hyps(2) a by simp_all
    show ?thesis
    proof (cases "validResponse (seen w0 a)")
      case v: True
      let ?s1 = "assignSlot f (parseBatteryID (seen w0 a)) s"
      let ?r = "scanLoop (Suc a) (Suc f) ?s1 (worldAt w0 (Suc a))"
      from v a have V: "?V = a # ?V'"
        by (simp add: validFrom_rec)
      from scanLoop_step [OF a5 True, of s "worldAt w0 a"] v
      have u: "scanLoop a f s (worldAt w0 a) = ?r"
        by (simp add: h)
      from Suc.prems V have c: "Suc f + length ?V' \<le> 4"
        by simp
      note ih = Suc.hyps(1) [OF n a6 c, of ?s1]
      from ih have i1: "fst ?r = Suc f + length ?V'"
        by simp
      from ih have i2: "\<And>j. j < length ?V' \<Longrightarrow>
          batteryID (batteries (fst (snd ?r)) (Suc f + j)) = parseBatteryID (seen w0 (?V' ! j))
          \<and> discoveredBatteryIDs (fst (snd ?r)) (Suc f + j) = parseBatteryID (seen w0 (?V' ! j))"
        by simp
      from ih have i3: "\<And>j. j < Suc f \<Longrightarrow>
          batteries (fst (snd ?r)) j = batteries ?s1 j
          \<and> discoveredBatteryIDs (fst (snd ?r)) j = discoveredBatteryIDs ?s1 j"
        by simp
      from ih have i4: "snd (snd ?r) = worldAt w0 (if Suc f + length ?V' < 4 then 6
                          else if ?V' = [] then Suc a else Suc (last ?V'))"
        by simp
      have g1: "fst ?r = f + length ?V"
        using i1 V by simp
      have g2: "batteryID (batteries (fst (snd ?r)) (f + j)) = parseBatteryID (seen w0 (?V ! j))
          \<and> discoveredBatteryIDs (fst (snd ?r)) (f + j) = parseBatteryID (seen w0 (?V ! j))"
        if "j < length ?V" for j
      proof (cases j)
        case 0
        with i3 [of f] V show ?thesis
          by (simp add: batteries_assignSlot discoveredBatteryIDs_assignSlot)
      next
        case (Suc j')
        with that V have "j' < length ?V'"
          by simp
        from i2 [OF this] Suc V show ?thesis
          by simp
      qed
      have g3: "batteries (fst (snd ?r)) j = batteries s j
          \<and> discoveredBatteryIDs (fst (snd ?r)) j = discoveredBatteryIDs s j" if "j < f" for j
        using that i3 [of j] by (simp add: batteries_assignSlot discoveredBatteryIDs_assignSlot)
      have g4: "snd (snd ?r) = worldAt w0 (if f + length ?V < 4 then 6
                          else if ?V = [] then a else Suc (last ?V))"
        using i4 V by simp
      from g1 g2 g3 g4 show ?thesis
        unfolding u by blast
    next
      case inv: False
      let ?r = "scanLoop (Suc a) f s (worldAt w0 (Suc a))"
      from inv a have V: "?V = ?V'"
        by (simp add: validFrom_rec)
      from scanLoop_step [OF a5 True, of s "worldAt w0 a"] inv
      have u: "scanLoop a f s (worldAt w0 a) = ?r"
        by (simp add: h)
      from Suc.prems V have c: "f + length ?V' \<le> 4"
        by simp
      note ih = Suc.hyps(1) [OF n a6 c, of s]
      have ne: "?V' \<noteq> []" if "\<not> f + length ?V' < 4"
        using that True by auto
      from ih have g4: "snd (snd ?r) = worldAt w0 (if f + length ?V' < 4 then 6
                          else if ?V' = [] then a else Suc (last ?V'))"
        using ne by auto
      from ih g4 show ?thesis
        unfolding u V by blast
    qed
  qed
qed

subsection \<open>The receive queue during a scan\<close>

lemma Serial2_available_arrived: "Serial2_available w = int (length (arrived w))"
  by (simp add: Serial2_available_def arrived_def)

lemma Serial2_read_arrived:
  assumes "arrived w = (t, b) # p"
  shows "Serial2_read w = Some (b, w\<lparr>rxq := tl (rxq w)\<rparr>)"
    and "arrived (w\<lparr>rxq := tl (rxq w)\<rparr>) = p"
    and "rxq w = (t, b) # tl (rxq w)"
proof -
  from assms obtain rest where q: "rxq w = (t, b) # rest" and le: "t \<le> clock w"
    by (cases "rxq w") (auto simp: arrived_def split: if_splits)
  from q le show "Serial2_read w = Some (b, w\<lparr>rxq := tl (rxq w)\<rparr>)"
    by (simp add: Serial2_read_def)
  from q le assms show "arrived (w\<lparr>rxq := tl (rxq w)\<rparr>) = p"
    by (simp add: arrived_def)
  from q show "rxq w = (t, b) # tl (rxq w)"
    by simp
qed

lemma drain_fields:
  "rxq (drain w) = dropWhile (\<lambda>(t, b). t \<le> clock w) (rxq w) \<and> clock (drain w) = clock w"
proof (induction "length (arrived w)" arbitrary: w)
  case 0
  then have a: "arrived w = []"
    by simp
  then have "drain w = w"
    by (subst drain.simps) (simp add: Serial2_available_arrived)
  moreover from a have "dropWhile (\<lambda>(t, b). t \<le> clock w) (rxq w) = rxq w"
    by (cases "rxq w") (auto simp: arrived_def split: if_splits)
  ultimately show ?case
    by simp
next
  case (Suc n)
  then obtain t b p where a: "arrived w = (t, b) # p"
    by (cases "arrived w") auto
  let ?w = "w\<lparr>rxq := tl (rxq w)\<rparr>"
  note r = Serial2_read_arrived [OF a]
  from a r(1) have u: "drain w = drain ?w"
    by (subst drain.simps) (simp add: Serial2_available_arrived)
  from Suc.hyps(2) a r(2) have "n = length (arrived ?w)"
    by simp
  from Suc.hyps(1) [OF this]
  have ih: "rxq (drain ?w) = dropWhile (\<lambda>(t, b). t \<le> clock w) (tl (rxq w))"
    "clock (drain ?w) = clock w"
    by simp_all
  from a have "t \<le> clock w"
    by (cases "rxq w") (auto simp: arrived_def split: if_splits)
  with r(3) have "dropWhile (\<lambda>(t, b). t \<le> clock w) (rxq w)
                  = dropWhile (\<lambda>(t, b). t \<le> clock w) (tl (rxq w))"
    by (metis (mono_tags, lifting) case_prod_conv dropWhile.simps(2))
  with u ih show ?case
    by simp
qed

lemma readAvailable_fields:
  "fst (readAvailable r w) = r @ map snd (take (64 - length r) (arrived w))
   \<and> rxq (snd (readAvailable r w)) = drop (min (64 - length r) (length (arrived w))) (rxq w)
   \<and> clock (snd (readAvailable r w)) = clock w"
proof (induction "length (arrived w)" arbitrary: r w)
  case 0
  then have a: "arrived w = []"
    by simp
  then have "readAvailable r w = (r, w)"
    by (subst readAvailable.simps) (simp add: Serial2_available_arrived)
  with a show ?case
    by simp
next
  case (Suc n)
  then obtain t b p where a: "arrived w = (t, b) # p"
    by (cases "arrived w") auto
  let ?w = "w\<lparr>rxq := tl (rxq w)\<rparr>"
  note rd = Serial2_read_arrived [OF a]
  show ?case
  proof (cases "length r < 64")
    case True
    with a rd(1) have u: "readAvailable r w = readAvailable (r @ [b]) ?w"
      by (subst readAvailable.simps) (simp add: Serial2_available_arrived)
    from Suc.hyps(2) a rd(2) have "n = length (arrived ?w)"
      by simp
    from Suc.hyps(1) [OF this, of "r @ [b]"] rd(2)
    have ih: "fst (readAvailable (r @ [b]) ?w) = (r @ [b]) @ map snd (take (64 - length (r @ [b])) p)"
      "rxq (snd (readAvailable (r @ [b]) ?w))
         = drop (min (64 - length (r @ [b])) (length p)) (tl (rxq w))"
      "clock (snd (readAvailable (r @ [b]) ?w)) = clock w"
      by simp_all
    from True have e: "64 - length r = Suc (63 - length r)"
      by simp
    have d: "drop (min (Suc (63 - length r)) (Suc (length p))) (rxq w)
             = drop (min (63 - length r) (length p)) (tl (rxq w))"
      by (subst rd(3)) simp
    from u ih a d show ?thesis
      by (simp add: e)
  next
    case False
    then have "readAvailable r w = (r, w)"
      by (subst readAvailable.simps) simp
    with False show ?thesis
      by simp
  qed
qed

lemma dropWhile_drop_prefix:
  "m \<le> length (takeWhile P xs) \<Longrightarrow> dropWhile P (drop m xs) = dropWhile P xs"
proof (induction xs arbitrary: m)
  case Nil
  show ?case by simp
next
  case (Cons x xs)
  show ?case
  proof (cases m)
    case 0
    then show ?thesis by simp
  next
    case (Suc m')
    with Cons.prems have "P x" and "m' \<le> length (takeWhile P xs)"
      by (auto split: if_splits)
    with Cons.IH [of m'] Suc show ?thesis
      by simp
  qed
qed

lemma dropWhile_dropWhile_mono:
  "(\<And>x. P x \<Longrightarrow> Q x) \<Longrightarrow> dropWhile Q (dropWhile P xs) = dropWhile Q xs"
  by (induction xs) auto

lemma delay_fields:
  "clock (delay n w) = clock w + n" "rxq (delay n w) = rxq w" "tx (delay n w) = tx w"
  by (simp_all add: delay_def)

lemma Serial2_write_fields:
  "clock (Serial2_write frame w) = clock w" "rxq (Serial2_write frame w) = rxq w"
  by (simp_all add: Serial2_write_def)

text \<open>One round, on the queue: it reads at most 64 of the bytes that have arrived 200 ms
  after its start, if they are at least 10, and leaves the queue without any of them,
  300 ms later.\<close>

lemma heard_queue:
  "heard a w =
     (if 10 \<le> length (takeWhile (\<lambda>(t, b). t \<le> clock w + 200) (rxq w))
      then map snd (take 64 (takeWhile (\<lambda>(t, b). t \<le> clock w + 200) (rxq w)))
      else [])"
proof -
  let ?w = "delay 200 (Serial2_write (pollMsg (int a)) w)"
  have a: "arrived ?w = takeWhile (\<lambda>(t, b). t \<le> clock w + 200) (rxq w)"
    by (simp add: arrived_def delay_fields Serial2_write_fields)
  have "fst (pollAddress a w) =
        (if 10 \<le> length (arrived ?w) then Some (fst (readAvailable [] ?w)) else None)"
    by (simp add: pollAddress_def Let_def Serial2_available_arrived split_beta)
  then show ?thesis
    using readAvailable_fields [of "[]" ?w] by (simp add: heard_def a)
qed

lemma afterPoll_queue:
  "rxq (afterPoll a w) = dropWhile (\<lambda>(t, b). t \<le> clock w + 200) (rxq w)
   \<and> clock (afterPoll a w) = clock w + 300"
proof -
  let ?w = "delay 200 (Serial2_write (pollMsg (int a)) w)"
  let ?P = "\<lambda>(t, b). t \<le> clock w + 200"
  have c: "clock ?w = clock w + 200" and q: "rxq ?w = rxq w"
    by (simp_all add: delay_fields Serial2_write_fields)
  have a: "arrived ?w = takeWhile ?P (rxq w)"
    by (simp add: arrived_def c q)
  show ?thesis
  proof (cases "10 \<le> length (arrived ?w)")
    case True
    let ?w' = "snd (readAvailable [] ?w)"
    from True have p: "snd (pollAddress a w) = ?w'"
      by (simp add: pollAddress_def Let_def Serial2_available_arrived split_beta)
    from readAvailable_fields [of "[]" ?w]
    have rq: "rxq ?w' = drop (min 64 (length (takeWhile ?P (rxq w)))) (rxq w)"
      and rc: "clock ?w' = clock w + 200"
      by (simp_all add: a c q)
    have "dropWhile ?P (drop (min 64 (length (takeWhile ?P (rxq w)))) (rxq w))
          = dropWhile ?P (rxq w)"
      by (rule dropWhile_drop_prefix) simp
    with drain_fields [of ?w'] rq rc show ?thesis
      by (simp add: afterPoll_def p delay_fields Serial2_write_fields)
  next
    case False
    then have p: "snd (pollAddress a w) = ?w"
      by (simp add: pollAddress_def Let_def Serial2_available_arrived)
    from drain_fields [of ?w] show ?thesis
      by (simp add: afterPoll_def p delay_fields Serial2_write_fields)
  qed
qed

lemma worldAt_queue:
  "clock (worldAt w a) = clock w + 100 + 300 * a
   \<and> rxq (worldAt w a)
       = (if a = 0 then rxq w else dropWhile (\<lambda>(t, b). t \<le> clock w + 300 * a) (rxq w))"
proof (induction a)
  case 0
  show ?case
    by (simp add: delay_fields Serial2_write_fields)
next
  case (Suc a)
  from Suc afterPoll_queue [of a "worldAt w a"]
  have c: "clock (worldAt w (Suc a)) = clock w + 100 + 300 * Suc a"
    and q: "rxq (worldAt w (Suc a))
            = dropWhile (\<lambda>(t, b). t \<le> clock w + 300 * Suc a)
                (if a = 0 then rxq w else dropWhile (\<lambda>(t, b). t \<le> clock w + 300 * a) (rxq w))"
    by (simp_all add: algebra_simps)
  have "dropWhile (\<lambda>(t, b). t \<le> clock w + 300 * Suc a)
          (dropWhile (\<lambda>(t, b). t \<le> clock w + 300 * a) (rxq w))
        = dropWhile (\<lambda>(t, b). t \<le> clock w + 300 * Suc a) (rxq w)"
    by (rule dropWhile_dropWhile_mono) auto
  with c q show ?case
    by simp
qed

text \<open>So the round for address \<open>a\<close> of a pass started at time \<open>t\<close> reads among the bytes
  that arrive after \<open>t + 300 a\<close> (for address 0, among all that are pending) those that
  arrive by \<open>t + 300 (a + 1)\<close>.\<close>

lemma seen_queue:
  "seen w a =
     (let q = (if a = 0 then rxq w else dropWhile (\<lambda>(t, b). t \<le> clock w + 300 * a) (rxq w));
          p = takeWhile (\<lambda>(t, b). t \<le> clock w + 300 * Suc a) q
      in if 10 \<le> length p then map snd (take 64 p) else [])"
proof -
  have h: "clock (worldAt w a) + 200 = clock w + 300 * Suc a"
    using worldAt_queue [of w a] by simp
  have q: "rxq (worldAt w a)
       = (if a = 0 then rxq w else dropWhile (\<lambda>(t, b). t \<le> clock w + 300 * a) (rxq w))"
    using worldAt_queue [of w a] by blast
  show ?thesis
    by (simp only: seen_def heard_queue h q Let_def)
qed

subsection \<open>Claims about the discovery pass\<close>

lemma validAddresses_validFrom: "validAddresses w = validFrom w 0"
  by (simp add: validAddresses_def validFrom_def)

lemma discoveryScan_scanLoop:
  "discoveryScan s w = scanLoop 0 0 ((clearLoop 0 s)\<lparr>activeBatteryCount := 0\<rparr>) (worldAt w 0)"
  by (simp add: discoveryScan_def Let_def)

lemma pollAddress_silent:
  "rxq w = [] \<Longrightarrow> pollAddress a w = (None, delay 200 (Serial2_write (pollMsg (int a)) w))"
  by (simp add: pollAddress_def Let_def available_silent delay_def Serial2_write_def)

lemma heard_silent: "rxq w = [] \<Longrightarrow> heard a w = []"
  by (simp add: heard_def pollAddress_silent)

lemma rxq_afterPoll_silent: "rxq w = [] \<Longrightarrow> rxq (afterPoll a w) = []"
  by (simp add: afterPoll_def pollAddress_silent drain_silent delay_def Serial2_write_def)

lemma rxq_worldAt_silent: "rxq w = [] \<Longrightarrow> rxq (worldAt w a) = []"
  by (induction a) (simp_all add: rxq_afterPoll_silent delay_def Serial2_write_def)

lemma validAddresses_silent: "rxq w = [] \<Longrightarrow> validAddresses w = []"
  by (simp add: validAddresses_def seen_def heard_silent rxq_worldAt_silent validResponse_def)

lemma parseBatteryID_id_response:
  "parseBatteryID (id_response 0x31) = ''CBB112810311''"
  "parseBatteryID (id_response 0x32) = ''CBB112810312''"
  "parseBatteryID (id_response 0x33) = ''CBB112810313''"
  "parseBatteryID (id_response 0x34) = ''CBB112810314''"
  "parseBatteryID (id_response 0x38) = ''CBB112810318''"
  "parseBatteryID (id_response 0x39) = ''CBB112810319''"
  by code_simp+

lemma validResponse_id_response:
  "parseBatteryID (id_response c) \<noteq> [] \<Longrightarrow> validResponse (id_response c)"
  by (simp add: validResponse_def) (simp add: id_response_def)

lemma seen_two_battery_world:
  "seen two_battery_world 0 = []"
  "seen two_battery_world 1 = id_response 0x38"
  "seen two_battery_world 2 = []"
  "seen two_battery_world 3 = id_response 0x39"
  "seen two_battery_world 4 = []"
  "seen two_battery_world 5 = []"
  by (simp_all add: seen_queue two_battery_world_def id_response_def)

lemma seen_four_battery_world:
  "seen four_battery_world 0 = id_response 0x31"
  "seen four_battery_world 1 = id_response 0x32"
  "seen four_battery_world 2 = id_response 0x33"
  "seen four_battery_world 3 = id_response 0x34"
  "seen four_battery_world 4 = []"
  "seen four_battery_world 5 = []"
  by (simp_all add: seen_queue four_battery_world_def id_response_def)

lemma not_validResponse_Nil: "\<not> validResponse []"
  by (simp add: validResponse_def)

lemma upt_0_6: "[0..<6] = [0, 1, 2, 3, 4, 5]"
  by (simp add: upt_rec)

lemma validAddresses_two_battery_world: "validAddresses two_battery_world = [1, 3]"
  by (simp add: validAddresses_def upt_0_6 seen_two_battery_world
      seen_two_battery_world(2) [unfolded One_nat_def] not_validResponse_Nil
      validResponse_id_response parseBatteryID_id_response)

lemma validAddresses_four_battery_world: "validAddresses four_battery_world = [0, 1, 2, 3]"
  by (simp add: validAddresses_def upt_0_6 seen_four_battery_world
      seen_four_battery_world(2) [unfolded One_nat_def] not_validResponse_Nil
      validResponse_id_response parseBatteryID_id_response)

text \<open>C5, as stated: for every \<open>N\<close> up to the capacity, a pass that receives \<open>N\<close> valid
  responses ends with an active count of \<open>N\<close>. On the silent bus the pass receives no
  valid response and ends with an active count of 4.\<close>

theorem discovery_no_response_counterexample:
  "length (validAddresses silent_world) = 0
   \<and> activeBatteryCount (fst (initializeValenceProtocol boot_engine silent_world)) = 4"
proof -
  have "validAddresses silent_world = []"
    by (rule validAddresses_silent) (simp add: silent_world_def)
  moreover have "rxq silent_world = []"
    by (simp add: silent_world_def)
  then have "fst (discoveryScan boot_engine silent_world) = 0"
    by (rule discoveryScan_silent)
  then obtain s1 w1 where "discoveryScan boot_engine silent_world = (0, s1, w1)"
    by (cases "discoveryScan boot_engine silent_world") auto
  then have "fst (initializeValenceProtocol boot_engine silent_world)
             = (fst (generateTestData s1 w1))\<lparr>protocolInitialized := True\<rparr>"
    by (simp add: initializeValenceProtocol_def split_beta)
  with generateTestData_slots [of s1 w1]
  have "activeBatteryCount (fst (initializeValenceProtocol boot_engine silent_world)) = 4"
    by simp
  ultimately show ?thesis
    by simp
qed

text \<open>C5, amended. A discovery pass polls the addresses from 0 upwards in increasing
  order. If it hears \<open>N\<close> valid responses in all, with \<open>N\<close> from 1 to the capacity of 4,
  then it ends initialized with an active count of \<open>N\<close>, the identifiers of the
  responses are in the slots 0 to \<open>N - 1\<close> in the order in which they were received, and
  the frames it has sent are the initialization sequence, the polls of the addresses 0 to
  5 (or, once the fourth battery is found, up to the address that answered fourth and no
  further), and the initialization sequence again.\<close>

theorem discovery_assigns_in_response_order:
  assumes "1 \<le> length (validAddresses w)" and "length (validAddresses w) \<le> 4"
  shows "activeBatteryCount (fst (initializeValenceProtocol s w)) = int (length (validAddresses w))
    \<and> protocolInitialized (fst (initializeValenceProtocol s w))
    \<and> (\<forall>j<length (validAddresses w).
          batteryID (batteries (fst (initializeValenceProtocol s w)) j)
            = parseBatteryID (seen w (validAddresses w ! j))
          \<and> discoveredBatteryIDs (fst (initializeValenceProtocol s w)) j
            = parseBatteryID (seen w (validAddresses w ! j)))
    \<and> tx (snd (initializeValenceProtocol s w))
        = tx w @ [initSeq]
          @ map (\<lambda>a. pollMsg (int a))
              [0..<(if length (validAddresses w) < 4 then 6 else Suc (validAddresses w ! 3))]
          @ [initSeq]"
proof -
  let ?V = "validFrom w 0"
  let ?s0 = "(clearLoop 0 s)\<lparr>activeBatteryCount := 0\<rparr>"
  let ?r = "scanLoop 0 0 ?s0 (worldAt w 0)"
  let ?k = "if length ?V < 4 then 6 else Suc (?V ! 3)"
  from assms have n1: "1 \<le> length ?V" and n4: "0 + length ?V \<le> 4"
    by (simp_all add: validAddresses_validFrom)
  have a0: "(0::nat) \<le> 6"
    by simp
  note res = scanLoop_result [OF a0 n4, of ?s0]
  from res have f: "fst ?r = length ?V"
    by simp
  from res have ids: "\<And>j. j < length ?V \<Longrightarrow>
      batteryID (batteries (fst (snd ?r)) j) = parseBatteryID (seen w (?V ! j))
      \<and> discoveredBatteryIDs (fst (snd ?r)) j = parseBatteryID (seen w (?V ! j))"
    by simp
  from n1 have "0 < length ?V"
    by linarith
  then have ne: "?V \<noteq> []"
    by simp
  have l: "last ?V = ?V ! 3" if "\<not> length ?V < 4"
  proof -
    from that n4 have "length ?V = 4"
      by simp
    with ne show ?thesis
      by (simp add: last_conv_nth)
  qed
  from res ne l have wk: "snd (snd ?r) = worldAt w ?k"
    by auto
  obtain s2 w2 where r: "?r = (length ?V, s2, w2)"
    using f by (cases ?r) auto
  from r ids have ids2: "\<And>j. j < length ?V \<Longrightarrow>
      batteryID (batteries s2 j) = parseBatteryID (seen w (?V ! j))
      \<and> discoveredBatteryIDs s2 j = parseBatteryID (seen w (?V ! j))"
    by simp
  from r wk have w2: "w2 = worldAt w ?k"
    by simp
  from r ne have i: "initializeValenceProtocol s w =
      (s2\<lparr>activeBatteryCount := int (length ?V), protocolInitialized := True\<rparr>,
       delay 100 (Serial2_write initSeq w2))"
    by (simp add: initializeValenceProtocol_def discoveryScan_scanLoop Let_def)
  have t: "tx (delay 100 (Serial2_write initSeq w2))
           = tx w @ [initSeq] @ map (\<lambda>a. pollMsg (int a)) [0..<?k] @ [initSeq]"
    by (simp add: w2 tx_worldAt delay_def Serial2_write_def)
  from i ids2 t show ?thesis
    unfolding validAddresses_validFrom by simp
qed

theorem discovery_assigns_in_response_order_witness:
  "validAddresses two_battery_world = [1, 3]
   \<and> activeBatteryCount (fst (initializeValenceProtocol boot_engine two_battery_world)) = 2
   \<and> protocolInitialized (fst (initializeValenceProtocol boot_engine two_battery_world))
   \<and> batteryID (batteries (fst (initializeValenceProtocol boot_engine two_battery_world)) 0)
       = ''CBB112810318''
   \<and> batteryID (batteries (fst (initializeValenceProtocol boot_engine two_battery_world)) 1)
       = ''CBB112810319''
   \<and> tx (snd (initializeValenceProtocol boot_engine two_battery_world))
       = [initSeq, pollMsg 0, pollMsg 1, pollMsg 2, pollMsg 3, pollMsg 4, pollMsg 5, initSeq]
   \<and> validAddresses four_battery_world = [0, 1, 2, 3]
   \<and> activeBatteryCount (fst (initializeValenceProtocol boot_engine four_battery_world)) = 4
   \<and> batteryID (batteries (fst (initializeValenceProtocol boot_engine four_battery_world)) 0)
       = ''CBB112810311''
   \<and> batteryID (batteries (fst (initializeValenceProtocol boot_engine four_battery_world)) 3)
       = ''CBB112810314''
   \<and> tx (snd (initializeValenceProtocol boot_engine four_battery_world))
       = [initSeq, pollMsg 0, pollMsg 1, pollMsg 2, pollMsg 3, initSeq]"
proof -
  have tx0: "tx two_battery_world = []" "tx four_battery_world = []"
    by (simp_all add: two_battery_world_def four_battery_world_def)
  note v2 = validAddresses_two_battery_world
  have h2: "1 \<le> length (validAddresses two_battery_world)"
    "length (validAddresses two_battery_world) \<le> 4"
    by (simp_all add: v2)
  note t2 = discovery_assigns_in_response_order [OF h2, of boot_engine]
  from t2 have a2: "activeBatteryCount (fst (initializeValenceProtocol boot_engine two_battery_world)) = 2"
    and p2: "protocolInitialized (fst (initializeValenceProtocol boot_engine two_battery_world))"
    by (simp_all add: v2)
  from t2 have i2: "\<And>j. j < 2 \<Longrightarrow>
      batteryID (batteries (fst (initializeValenceProtocol boot_engine two_battery_world)) j)
        = parseBatteryID (seen two_battery_world ([1, 3] ! j))"
    by (simp add: v2)
  from i2 [of 0] i2 [of 1]
  have b2: "batteryID (batteries (fst (initializeValenceProtocol boot_engine two_battery_world)) 0)
       = ''CBB112810318''"
    "batteryID (batteries (fst (initializeValenceProtocol boot_engine two_battery_world)) 1)
       = ''CBB112810319''"
    by (simp_all add: seen_two_battery_world seen_two_battery_world(2) [unfolded One_nat_def]
        parseBatteryID_id_response)
  from t2 have x2: "tx (snd (initializeValenceProtocol boot_engine two_battery_world))
       = [initSeq, pollMsg 0, pollMsg 1, pollMsg 2, pollMsg 3, pollMsg 4, pollMsg 5, initSeq]"
    by (simp add: v2 upt_0_6 tx0)
  note v4 = validAddresses_four_battery_world
  have h4: "1 \<le> length (validAddresses four_battery_world)"
    "length (validAddresses four_battery_world) \<le> 4"
    by (simp_all add: v4)
  note t4 = discovery_assigns_in_response_order [OF h4, of boot_engine]
  from t4 have a4: "activeBatteryCount (fst (initializeValenceProtocol boot_engine four_battery_world)) = 4"
    by (simp add: v4)
  from t4 have i4: "\<And>j. j < 4 \<Longrightarrow>
      batteryID (batteries (fst (initializeValenceProtocol boot_engine four_battery_world)) j)
        = parseBatteryID (seen four_battery_world ([0, 1, 2, 3] ! j))"
    by (simp add: v4)
  from i4 [of 0] i4 [of 3]
  have b4: "batteryID (batteries (fst (initializeValenceProtocol boot_engine four_battery_world)) 0)
       = ''CBB112810311''"
    "batteryID (batteries (fst (initializeValenceProtocol boot_engine four_battery_world)) 3)
       = ''CBB112810314''"
    by (simp_all add: seen_four_battery_world parseBatteryID_id_response)
  have u4: "[0..<4] = [0, 1, 2, 3::nat]"
    by (simp add: upt_rec)
  from t4 have x4: "tx (snd (initializeValenceProtocol boot_engine four_battery_world))
       = [initSeq, pollMsg 0, pollMsg 1, pollMsg 2, pollMsg 3, initSeq]"
    by (simp add: v4 u4 tx0)
  from v2 a2 p2 b2 x2 v4 a4 b4 x4 show ?thesis
    by blast
qed

subsection \<open>The polling pass without active batteries\<close>








end
